theory Spec2Isabelle
  imports Complex_Main "HOL-Library.Sublist"
begin

section \<open>The Gmail clean-up script \<open>trash_unlabeled_archived.py\<close>\<close>

text \<open>
  The script talks to three outside parties: the OAuth libraries, the Gmail
  client built by \<open>googleapiclient\<close>, and the clock (\<open>time.sleep\<close>).
  None of them is code of the script, so each is a parameter of the model:
  the Gmail client is a deterministic machine over a state \<open>'s\<close> that answers
  every \<open>.execute()\<close> with a value or an exception, and everything the script
  does to the outside (calls, sleeps, prints, the token file) is recorded, in order,
  in a trace.
\<close>

subsection \<open>Exceptions\<close>

text \<open>
  The exceptions the libraries raise, all of them subclasses of \<open>Exception\<close>.
  \<open>HttpError\<close> carries \<open>getattr(e.resp, "status", None)\<close>. What does not derive
  from \<open>Exception\<close> (\<open>KeyboardInterrupt\<close>, \<open>SystemExit\<close>) comes from outside the
  calls the script makes and is not modelled.
\<close>

datatype exn =
    HttpError "int option"
  | ValueError
  | KeyError string
  | OtherException string

subsection \<open>The Gmail client and the trace\<close>

type_synonym message = "string \<rightharpoonup> string"

record list_response =
  messages :: "message list option"
  nextPageToken :: "string option"

text \<open>
  \<open>list_exec s userId q pageToken maxResults\<close> is
  \<open>service.users().messages().list(...).execute()\<close>, and
  \<open>trash_exec s userId id\<close> is \<open>service.users().messages().trash(...).execute()\<close>,
  both in the client state \<open>s\<close>.
\<close>

record 's service =
  list_exec :: "'s \<Rightarrow> string \<Rightarrow> string \<Rightarrow> string option \<Rightarrow> int \<Rightarrow> (exn + list_response) \<times> 's"
  trash_exec :: "'s \<Rightarrow> string \<Rightarrow> string \<Rightarrow> (exn + unit) \<times> 's"

datatype event =
    ListCall string string "string option" int
  | TrashCall string string "exn option"
  | Sleep rat
  | Print string
  | WriteFile string string

record 's world =
  srv_state :: 's
  trace :: "event list"

definition emit :: "event \<Rightarrow> 's world \<Rightarrow> 's world" where
  "emit ev w = w\<lparr>trace := trace w @ [ev]\<rparr>"

definition time_sleep :: "rat \<Rightarrow> 's world \<Rightarrow> 's world" where
  "time_sleep d w = emit (Sleep d) w"

definition py_print :: "string \<Rightarrow> 's world \<Rightarrow> 's world" where
  "py_print s w = emit (Print s) w"

subsection \<open>Python built-ins the script uses\<close>

text \<open>\<open>range(start, stop, step)\<close>: a zero step raises \<open>ValueError\<close>.\<close>

definition py_range :: "int \<Rightarrow> int \<Rightarrow> int \<Rightarrow> exn + int list" where
  "py_range start stop step =
     (if step = 0 then Inl ValueError
      else if 0 < step
        then Inr (map (\<lambda>k. start + int k * step) [0..<nat ((stop - start + step - 1) div step)])
        else Inr (map (\<lambda>k. start + int k * step) [0..<nat ((start - stop - step - 1) div (- step))]))"

text \<open>\<open>xs[i:j]\<close>: negative bounds count from the end, and both are clipped to the list.\<close>

definition slice_index :: "int \<Rightarrow> int \<Rightarrow> int" where
  "slice_index n k = (if k < 0 then max 0 (k + n) else min k n)"

definition py_slice :: "'a list \<Rightarrow> int \<Rightarrow> int \<Rightarrow> 'a list" where
  "py_slice xs i j =
     (let n = int (length xs); lo = slice_index n i; hi = slice_index n j
      in take (nat (hi - lo)) (drop (nat lo) xs))"

text \<open>Truthiness of an optional string: \<open>None\<close> and \<open>""\<close> are false.\<close>

fun truthy :: "string option \<Rightarrow> bool" where
  "truthy None = False"
| "truthy (Some s) = (s \<noteq> [])"

text \<open>Decimal rendering of an integer inside an f-string.\<close>

definition digit_char :: "nat \<Rightarrow> char" where
  "digit_char d = ''0123456789'' ! (d mod 10)"

fun show_nat :: "nat \<Rightarrow> string" where
  "show_nat n = (if n < 10 then [digit_char n] else show_nat (n div 10) @ [digit_char (n mod 10)])"

declare show_nat.simps [simp del]

definition show_int :: "int \<Rightarrow> string" where
  "show_int i = (if i < 0 then CHR ''-'' # show_nat (nat (- i)) else show_nat (nat i))"

subsection \<open>\<open>batch_trash\<close>\<close>

text \<open>\<open>status in (429, 500, 503)\<close>\<close>

definition transient :: "int option \<Rightarrow> bool" where
  "transient status = (status = Some 429 \<or> status = Some 500 \<or> status = Some 503)"

text \<open>
  The loop \<open>for attempt in range(5)\<close> for one message, over the attempts still to
  come. A success counts the message and breaks; an \<open>HttpError\<close> with a transient
  status sleeps \<open>(2 ** attempt) * 0.5\<close> and continues; anything else is raised.
  When the attempts run out the loop just ends. The durations are exact in binary
  floating point (a power of two times one half), so they are kept as rationals.
\<close>

fun retry_loop ::
  "'s service \<Rightarrow> string \<Rightarrow> string \<Rightarrow> nat list \<Rightarrow> int \<Rightarrow> 's world \<Rightarrow> (exn + int) \<times> 's world" where
  "retry_loop service user_id mid [] trashed w = (Inr trashed, w)"
| "retry_loop service user_id mid (attempt # rest) trashed w =
     (case trash_exec service (srv_state w) user_id mid of
        (Inr _, s') \<Rightarrow>
          (Inr (trashed + 1), emit (TrashCall user_id mid None) (w\<lparr>srv_state := s'\<rparr>))
      | (Inl e, s') \<Rightarrow>
          (let w' = emit (TrashCall user_id mid (Some e)) (w\<lparr>srv_state := s'\<rparr>) in
           case e of
             HttpError status \<Rightarrow>
               if transient status
               then retry_loop service user_id mid rest trashed
                      (time_sleep (2 ^ attempt * (1 / 2)) w')
               else (Inl e, w')
           | _ \<Rightarrow> (Inl e, w')))"

text \<open>The loop \<open>for mid in chunk\<close>.\<close>

fun chunk_loop ::
  "'s service \<Rightarrow> string \<Rightarrow> bool \<Rightarrow> rat \<Rightarrow> string list \<Rightarrow> int \<Rightarrow> 's world \<Rightarrow> (exn + int) \<times> 's world" where
  "chunk_loop service user_id dry_run sleep_s [] trashed w = (Inr trashed, w)"
| "chunk_loop service user_id dry_run sleep_s (mid # mids) trashed w =
     (if dry_run then chunk_loop service user_id dry_run sleep_s mids (trashed + 1) w
      else
        (case retry_loop service user_id mid [0..<5] trashed w of
           (Inl e, w') \<Rightarrow> (Inl e, w')
         | (Inr trashed', w') \<Rightarrow>
             chunk_loop service user_id dry_run sleep_s mids trashed' (time_sleep sleep_s w')))"

text \<open>The loop \<open>for i in range(0, len(message_ids), batch_size)\<close>, over the indices still to come.\<close>

fun batch_loop ::
  "'s service \<Rightarrow> string \<Rightarrow> string list \<Rightarrow> bool \<Rightarrow> int \<Rightarrow> rat \<Rightarrow> int list \<Rightarrow> int \<Rightarrow> 's world
     \<Rightarrow> (exn + int) \<times> 's world" where
  "batch_loop service user_id message_ids dry_run batch_size sleep_s [] trashed w = (Inr trashed, w)"
| "batch_loop service user_id message_ids dry_run batch_size sleep_s (i # is) trashed w =
     (let chunk = py_slice message_ids i (i + batch_size) in
      case chunk_loop service user_id dry_run sleep_s chunk trashed w of
        (Inl e, w') \<Rightarrow> (Inl e, w')
      | (Inr trashed', w') \<Rightarrow>
          batch_loop service user_id message_ids dry_run batch_size sleep_s is trashed'
            (py_print (''Processed '' @ show_int (min (i + batch_size) (int (length message_ids)))
                         @ ''/'' @ show_int (int (length message_ids))) w'))"

definition batch_trash ::
  "'s service \<Rightarrow> string \<Rightarrow> string list \<Rightarrow> bool \<Rightarrow> int \<Rightarrow> rat \<Rightarrow> 's world \<Rightarrow> (exn + int) \<times> 's world" where
  "batch_trash service user_id message_ids dry_run batch_size sleep_s w =
     (case py_range 0 (int (length message_ids)) batch_size of
        Inl e \<Rightarrow> (Inl e, w)
      | Inr is \<Rightarrow> batch_loop service user_id message_ids dry_run batch_size sleep_s is 0 w)"

subsection \<open>\<open>list_message_ids\<close>\<close>

text \<open>\<open>[m["id"] for m in msgs]\<close>: a message without the key raises \<open>KeyError\<close>.\<close>

fun page_ids :: "message list \<Rightarrow> exn + string list" where
  "page_ids [] = Inr []"
| "page_ids (m # ms) =
     (case m ''id'' of
        None \<Rightarrow> Inl (KeyError ''id'')
      | Some v \<Rightarrow> (case page_ids ms of Inl e \<Rightarrow> Inl e | Inr vs \<Rightarrow> Inr (v # vs)))"

text \<open>\<open>res.get("messages", [])\<close>\<close>

definition get_messages :: "list_response \<Rightarrow> message list" where
  "get_messages res = (case messages res of None \<Rightarrow> [] | Some ms \<Rightarrow> ms)"

text \<open>\<open>max_messages is not None and len(ids) >= max_messages\<close>\<close>

definition cap_reached :: "int option \<Rightarrow> 'a list \<Rightarrow> bool" where
  "cap_reached max_messages ids =
     (case max_messages of None \<Rightarrow> False | Some m \<Rightarrow> m \<le> int (length ids))"

text \<open>\<open>ids[:max_messages]\<close>, evaluated only when \<open>max_messages\<close> is not \<open>None\<close>.\<close>

definition cap_ids :: "int option \<Rightarrow> 'a list \<Rightarrow> 'a list" where
  "cap_ids max_messages ids = (case max_messages of None \<Rightarrow> ids | Some m \<Rightarrow> py_slice ids 0 m)"

text \<open>
  The loop \<open>while True\<close>, from the values of \<open>ids\<close> and \<open>page_token\<close> at its head.
  Nothing bounds the number of pages, so the loop may run forever: the result is
  \<open>None\<close> then.
\<close>

partial_function (option) list_loop ::
  "'s service \<Rightarrow> string \<Rightarrow> string \<Rightarrow> int option \<Rightarrow> string list \<Rightarrow> string option \<Rightarrow> 's world
     \<Rightarrow> ((exn + string list) \<times> 's world) option" where
  "list_loop service user_id query max_messages ids page_token w =
     (case list_exec service (srv_state w) user_id query page_token 500 of
        (r, s') \<Rightarrow>
          (let w' = emit (ListCall user_id query page_token 500) (w\<lparr>srv_state := s'\<rparr>) in
           case r of
             Inl e \<Rightarrow> Some (Inl e, w')
           | Inr res \<Rightarrow>
               (case page_ids (get_messages res) of
                  Inl e \<Rightarrow> Some (Inl e, w')
                | Inr new \<Rightarrow>
                    if cap_reached max_messages (ids @ new)
                    then Some (Inr (cap_ids max_messages (ids @ new)), w')
                    else if \<not> truthy (nextPageToken res)
                    then Some (Inr (ids @ new), w')
                    else list_loop service user_id query max_messages (ids @ new)
                           (nextPageToken res) w')))"

declare list_loop.simps [code]

definition list_message_ids ::
  "'s service \<Rightarrow> string \<Rightarrow> string \<Rightarrow> int option \<Rightarrow> 's world
     \<Rightarrow> ((exn + string list) \<times> 's world) option" where
  "list_message_ids service user_id query max_messages w =
     list_loop service user_id query max_messages [] None w"

subsection \<open>\<open>get_gmail_service\<close>\<close>

text \<open>
  The OAuth libraries are outside the script: each call the function makes is a
  field of the environment, answering with a value or an exception.
  \<open>'f\<close> is the type of the flow object.
\<close>

record creds =
  valid :: bool
  expired :: bool
  refresh_token :: "string option"
  to_json :: string

record ('f, 's) auth_env =
  from_authorized_user_file :: "string \<Rightarrow> string list \<Rightarrow> exn + creds"
  refresh :: "creds \<Rightarrow> exn + creds"
  from_client_secrets_file :: "string \<Rightarrow> string list \<Rightarrow> exn + 'f"
  run_local_server :: "'f \<Rightarrow> int \<Rightarrow> exn + creds"
  write_file :: "string \<Rightarrow> string \<Rightarrow> exn option"
  build :: "string \<Rightarrow> string \<Rightarrow> creds \<Rightarrow> exn + 's service"

definition SCOPES :: "string list" where
  "SCOPES = [''https://www.googleapis.com/auth/gmail.modify'']"

definition DEFAULT_QUERY :: string where
  "DEFAULT_QUERY = ''-in:inbox has:nouserlabels -in:trash -in:spam''"

text \<open>
  The \<open>try\<close> around \<open>Credentials.from_authorized_user_file\<close>: \<open>except Exception\<close>
  turns whatever the call raises into \<open>creds = None\<close>.
\<close>

definition load_creds :: "('f, 's) auth_env \<Rightarrow> string \<Rightarrow> creds option" where
  "load_creds env token_path =
     (case from_authorized_user_file env token_path SCOPES of
        Inr c \<Rightarrow> Some c
      | Inl e \<Rightarrow> None)"

text \<open>The branch \<open>if creds and creds.expired and creds.refresh_token\<close> and its \<open>else\<close>.\<close>

definition renew_creds :: "('f, 's) auth_env \<Rightarrow> string \<Rightarrow> creds option \<Rightarrow> exn + creds" where
  "renew_creds env credentials_path creds =
     (case creds of
        Some c \<Rightarrow>
          if expired c \<and> truthy (refresh_token c) then refresh env c
          else (case from_client_secrets_file env credentials_path SCOPES of
                  Inl e \<Rightarrow> Inl e
                | Inr flow \<Rightarrow> run_local_server env flow 0)
      | None \<Rightarrow>
          (case from_client_secrets_file env credentials_path SCOPES of
             Inl e \<Rightarrow> Inl e
           | Inr flow \<Rightarrow> run_local_server env flow 0))"

text \<open>
  The body of \<open>if not creds or not creds.valid\<close>: renew the credentials and store
  them in the token file.
\<close>

definition renew_and_store ::
  "('f, 's) auth_env \<Rightarrow> string \<Rightarrow> string \<Rightarrow> creds option \<Rightarrow> 's world \<Rightarrow> (exn + creds) \<times> 's world" where
  "renew_and_store env credentials_path token_path creds w =
     (case renew_creds env credentials_path creds of
        Inl e \<Rightarrow> (Inl e, w)
      | Inr c \<Rightarrow>
          (case write_file env token_path (to_json c) of
             Some e \<Rightarrow> (Inl e, w)
           | None \<Rightarrow> (Inr c, emit (WriteFile token_path (to_json c)) w)))"

definition get_gmail_service ::
  "('f, 's) auth_env \<Rightarrow> string \<Rightarrow> string \<Rightarrow> 's world \<Rightarrow> (exn + 's service) \<times> 's world" where
  "get_gmail_service env credentials_path token_path w =
     (let creds = load_creds env token_path in
      case (case creds of
              None \<Rightarrow> renew_and_store env credentials_path token_path creds w
            | Some c \<Rightarrow>
                if \<not> valid c then renew_and_store env credentials_path token_path creds w
                else (Inr c, w)) of
        (Inl e, w') \<Rightarrow> (Inl e, w')
      | (Inr c, w') \<Rightarrow>
          (case build env ''gmail'' ''v1'' c of
             Inl e \<Rightarrow> (Inl e, w')
           | Inr service \<Rightarrow> (Inr service, w')))"

subsection \<open>\<open>main\<close> and the process\<close>

text \<open>The namespace \<open>parser.parse_args()\<close> returns.\<close>

record args =
  arg_credentials :: string
  arg_token :: string
  arg_user :: string
  arg_query :: string
  arg_max :: "int option"
  arg_dry_run :: bool
  arg_batch_size :: int

text \<open>
  \<open>main\<close> leaves \<open>sleep_s\<close> at its default, the double written \<open>0.2\<close>: its exact
  value is \<open>3602879701896397 / 2 ^ 54\<close>.
\<close>

definition default_sleep_s :: rat where
  "default_sleep_s = 3602879701896397 / 18014398509481984"

definition main ::
  "('f, 's) auth_env \<Rightarrow> args \<Rightarrow> 's world \<Rightarrow> ((exn + unit) \<times> 's world) option" where
  "main env a w =
     (case get_gmail_service env (arg_credentials a) (arg_token a) w of
        (Inl e, w1) \<Rightarrow> Some (Inl e, w1)
      | (Inr service, w1) \<Rightarrow>
          (case list_message_ids service (arg_user a) (arg_query a) (arg_max a)
                  (py_print (''Searching with query:'' @ [CHR 0x0A] @ ''  '' @ arg_query a) w1) of
             None \<Rightarrow> None
           | Some (Inl e, w2) \<Rightarrow> Some (Inl e, w2)
           | Some (Inr ids, w2) \<Rightarrow>
               (let w3 = py_print (''Matched messages: '' @ show_int (int (length ids))) w2 in
                if length ids = 0 then Some (Inr (), w3)
                else
                  (let w4 = py_print
                        (if arg_dry_run a
                         then ''Dry run enabled '' @ [CHR 0xC3, CHR 0xA2, CHR 0xE2, CHR 0x82, CHR 0xAC, CHR 0xE2, CHR 0x80, CHR 0x9D]
                                @ '' no messages will be changed.''
                         else ''Trashing messages... (reversible until Trash is emptied / auto-deletes after ~30 days)'')
                        w3 in
                   case batch_trash service (arg_user a) ids (arg_dry_run a) (arg_batch_size a) default_sleep_s w4 of
                     (Inl e, w5) \<Rightarrow> Some (Inl e, w5)
                   | (Inr trashed, w5) \<Rightarrow>
                       Some (Inr (),
                             py_print (''Done. '' @ (if arg_dry_run a then ''Would trash'' else ''Trashed'')
                                         @ '': '' @ show_int trashed) w5)))))"

text \<open>
  \<open>if __name__ == "__main__": main()\<close>: the interpreter ends with status 0 when
  \<open>main\<close> returns and with status 1 (after the stack trace) when an exception
  leaves it; \<open>None\<close> is a run that never ends.
\<close>

definition exit_status :: "((exn + unit) \<times> 's world) option \<Rightarrow> int option" where
  "exit_status run =
     (case run of
        None \<Rightarrow> None
      | Some (Inl e, w) \<Rightarrow> Some 1
      | Some (Inr u, w) \<Rightarrow> Some 0)"

subsection \<open>Vocabulary for the properties\<close>

text \<open>
  \<open>after w s evs\<close> is the world reached from \<open>w\<close> when the client is left in state
  \<open>s\<close> and the events \<open>evs\<close> have happened; \<open>fresh s\<close> is a world with nothing in
  its trace yet.
\<close>

definition after :: "'s world \<Rightarrow> 's \<Rightarrow> event list \<Rightarrow> 's world" where
  "after w s evs = \<lparr>srv_state = s, trace = trace w @ evs\<rparr>"

definition fresh :: "'s \<Rightarrow> 's world" where
  "fresh s = \<lparr>srv_state = s, trace = []\<rparr>"

text \<open>
  Progress lines are the only thing the chunking of \<open>batch_trash\<close> adds; \<open>effects\<close>
  keeps everything else of a trace, and two worlds have the \<open>same_effects\<close> when
  the client is in the same state and the traces differ in prints only.
\<close>

fun is_Print :: "event \<Rightarrow> bool" where
  "is_Print (Print _) = True"
| "is_Print _ = False"

definition effects :: "event list \<Rightarrow> event list" where
  "effects evs = filter (\<lambda>e. \<not> is_Print e) evs"

definition same_effects :: "'s world \<Rightarrow> 's world \<Rightarrow> bool" where
  "same_effects w1 w2 = (srv_state w1 = srv_state w2 \<and> effects (trace w1) = effects (trace w2))"

text \<open>The chunks \<open>message_ids[i:i+batch_size]\<close> that \<open>batch_trash\<close> slices, in order.\<close>

definition chunks :: "'a list \<Rightarrow> int \<Rightarrow> exn + 'a list list" where
  "chunks message_ids batch_size =
     (case py_range 0 (int (length message_ids)) batch_size of
        Inl e \<Rightarrow> Inl e
      | Inr is \<Rightarrow> Inr (map (\<lambda>i. py_slice message_ids i (i + batch_size)) is))"

text \<open>
  A client to run the script against: \<open>messages.list\<close> answers from a table of
  pages by page token (an unknown token is a 400), and \<open>messages.trash\<close> answers
  with the next reply of a script held in the state, and succeeds once the script
  is used up.
\<close>

definition fake_service :: "(string option \<times> list_response) list \<Rightarrow> ((exn + unit) list) service" where
  "fake_service pages =
     \<lparr>list_exec = (\<lambda>s user_id query page_token max_results.
        (case map_of pages page_token of
           None \<Rightarrow> (Inl (HttpError (Some 400)), s)
         | Some res \<Rightarrow> (Inr res, s))),
      trash_exec = (\<lambda>s user_id mid.
        (case s of [] \<Rightarrow> (Inr (), []) | r # rs \<Rightarrow> (r, rs)))\<rparr>"

text \<open>
  What the client answers to \<open>n\<close> successive trash calls for one message, from the
  state \<open>s\<close>, and the state it is left in.
\<close>

fun trash_run :: "'s service \<Rightarrow> string \<Rightarrow> string \<Rightarrow> nat \<Rightarrow> 's \<Rightarrow> (exn + unit) list \<times> 's" where
  "trash_run service user_id mid 0 s = ([], s)"
| "trash_run service user_id mid (Suc n) s =
     (case trash_exec service s user_id mid of
        (r, s') \<Rightarrow> (case trash_run service user_id mid n s' of (rs, s'') \<Rightarrow> (r # rs, s'')))"

text \<open>
  The events of failed attempts that were retried: the failed call with its status,
  then the sleep of one half times two to the attempt, attempt by attempt.
\<close>

fun backoff_events :: "string \<Rightarrow> string \<Rightarrow> nat list \<Rightarrow> int option list \<Rightarrow> event list" where
  "backoff_events user_id mid (attempt # attempts) (status # statuses) =
     TrashCall user_id mid (Some (HttpError status)) # Sleep (2 ^ attempt * (1 / 2))
       # backoff_events user_id mid attempts statuses"
| "backoff_events user_id mid attempts statuses = []"

text \<open>The exceptions the retry loop swallows: an \<open>HttpError\<close> with a transient status.\<close>

fun retryable :: "exn \<Rightarrow> bool" where
  "retryable (HttpError status) = transient status"
| "retryable _ = False"

text \<open>The sleeps of a trace, and the ids of its successful trash calls, in order.\<close>

fun sleeps :: "event list \<Rightarrow> rat list" where
  "sleeps [] = []"
| "sleeps (Sleep d # evs) = d # sleeps evs"
| "sleeps (_ # evs) = sleeps evs"

fun trashed_ids :: "event list \<Rightarrow> string list" where
  "trashed_ids [] = []"
| "trashed_ids (TrashCall user_id mid None # evs) = mid # trashed_ids evs"
| "trashed_ids (_ # evs) = trashed_ids evs"

text \<open>
  The result pages of a search, as the client hands them out: \<open>paging\<close> holds for
  the responses to the calls that start with \<open>page_token\<close> in the state \<open>s\<close>, each
  following call made with the token of the response before, up to and including
  the first response whose \<open>nextPageToken\<close> is missing or empty (what
  \<open>not page_token\<close> tests), with the client left in \<open>s'\<close>. \<open>list_calls\<close> are the
  calls that fetch these pages.
\<close>

inductive paging ::
  "'s service \<Rightarrow> string \<Rightarrow> string \<Rightarrow> string option \<Rightarrow> 's \<Rightarrow> list_response list \<Rightarrow> 's \<Rightarrow> bool"
  for service user_id query where
  last_page:
    "list_exec service s user_id query page_token 500 = (Inr res, s') \<Longrightarrow>
     \<not> truthy (nextPageToken res) \<Longrightarrow>
     paging service user_id query page_token s [res] s'"
| next_page:
    "list_exec service s user_id query page_token 500 = (Inr res, s1) \<Longrightarrow>
     truthy (nextPageToken res) \<Longrightarrow>
     paging service user_id query (nextPageToken res) s1 pages s' \<Longrightarrow>
     paging service user_id query page_token s (res # pages) s'"

code_pred paging .

definition list_calls :: "string \<Rightarrow> string \<Rightarrow> string option \<Rightarrow> list_response list \<Rightarrow> event list" where
  "list_calls user_id query page_token pages =
     map (\<lambda>tok. ListCall user_id query tok 500) (page_token # map nextPageToken (butlast pages))"

text \<open>
  The pages fetched so far: \<open>fetched\<close> holds for the responses to the calls that
  start with \<open>page_token\<close> in the state \<open>s\<close>, every one of them carrying a
  next-page token, with \<open>tok\<close> the token and \<open>s'\<close> the client state the next call
  will be made with.
\<close>

inductive fetched ::
  "'s service \<Rightarrow> string \<Rightarrow> string \<Rightarrow> string option \<Rightarrow> 's \<Rightarrow> list_response list \<Rightarrow> string option \<Rightarrow> 's \<Rightarrow> bool"
  for service user_id query where
  no_page: "fetched service user_id query page_token s [] page_token s"
| one_more:
    "list_exec service s user_id query page_token 500 = (Inr res, s1) \<Longrightarrow>
     truthy (nextPageToken res) \<Longrightarrow>
     fetched service user_id query (nextPageToken res) s1 pages tok s' \<Longrightarrow>
     fetched service user_id query page_token s (res # pages) tok s'"

code_pred fetched .

text \<open>A search with three matches on two pages, to run \<open>list_message_ids\<close> against.\<close>

definition msg :: "string \<Rightarrow> message" where
  "msg i = [''id'' \<mapsto> i]"

definition first_page :: list_response where
  "first_page = \<lparr>messages = Some [msg ''m1'', msg ''m2''], nextPageToken = Some ''t1''\<rparr>"

definition second_page :: list_response where
  "second_page = \<lparr>messages = Some [msg ''m3''], nextPageToken = None\<rparr>"

definition two_pages :: "(string option \<times> list_response) list" where
  "two_pages = [(None, first_page), (Some ''t1'', second_page)]"

text \<open>The same search when the client loses the second page: its token is unknown.\<close>

definition one_page :: "(string option \<times> list_response) list" where
  "one_page = [(None, first_page)]"

text \<open>
  Two OAuth environments with no token file yet (loading it raises): in the first
  the browser flow then grants credentials, in the second the client secrets file
  is missing as well. And the arguments of a run with no flags.
\<close>

definition granted :: creds where
  "granted = \<lparr>valid = True, expired = False, refresh_token = Some ''r'', to_json = ''{}''\<rparr>"

definition first_run_env :: "(unit, (exn + unit) list) auth_env" where
  "first_run_env =
     \<lparr>from_authorized_user_file = (\<lambda>token_path scopes. Inl (OtherException ''FileNotFoundError'')),
      refresh = (\<lambda>c. Inr c),
      from_client_secrets_file = (\<lambda>credentials_path scopes. Inr ()),
      run_local_server = (\<lambda>flow port. Inr granted),
      write_file = (\<lambda>path content. None),
      build = (\<lambda>name version c. Inr (fake_service []))\<rparr>"

definition no_secrets_env :: "(unit, (exn + unit) list) auth_env" where
  "no_secrets_env =
     \<lparr>from_authorized_user_file = (\<lambda>token_path scopes. Inl (OtherException ''FileNotFoundError'')),
      refresh = (\<lambda>c. Inr c),
      from_client_secrets_file = (\<lambda>credentials_path scopes. Inl (OtherException ''FileNotFoundError'')),
      run_local_server = (\<lambda>flow port. Inr granted),
      write_file = (\<lambda>path content. None),
      build = (\<lambda>name version c. Inr (fake_service []))\<rparr>"

definition default_args :: args where
  "default_args =
     \<lparr>arg_credentials = ''credentials.json'', arg_token = ''token.json'', arg_user = ''me'',
      arg_query = DEFAULT_QUERY, arg_max = None, arg_dry_run = False, arg_batch_size = 100\<rparr>"

text \<open>
  An OAuth environment with a valid cached token, whose client serves the search
  that loses its second page.
\<close>

definition broken_search_env :: "(unit, (exn + unit) list) auth_env" where
  "broken_search_env =
     \<lparr>from_authorized_user_file = (\<lambda>token_path scopes. Inr granted),
      refresh = (\<lambda>c. Inr c),
      from_client_secrets_file = (\<lambda>credentials_path scopes. Inr ()),
      run_local_server = (\<lambda>flow port. Inr granted),
      write_file = (\<lambda>path content. None),
      build = (\<lambda>name version c. Inr (fake_service one_page))\<rparr>"

section \<open>Properties\<close>

subsection \<open>Ranges, slices and chunks\<close>

lemma chunk_loop_dry:
  "chunk_loop service user_id True sleep_s mids trashed w = (Inr (trashed + int (length mids)), w)"
  by (induction mids arbitrary: trashed) simp_all

lemma py_range_pos: "0 < b \<Longrightarrow> py_range 0 n b = Inr (map (\<lambda>k. int k * b) [0..<nat ((n + b - 1) div b)])"
  by (simp add: py_range_def)

lemma py_range_neg: "b < 0 \<Longrightarrow> 0 \<le> n \<Longrightarrow> py_range 0 n b = Inr []"
proof -
  assume b: "b < 0" and n: "0 \<le> n"
  have "(0 - n - b - 1) div (- b) \<le> 0"
  proof (cases "0 \<le> 0 - n - b - 1")
    case True
    then have "(0 - n - b - 1) div (- b) = 0" using b n by (intro div_pos_pos_trivial) auto
    then show ?thesis by simp
  next
    case False
    then show ?thesis using b by (simp add: div_nonpos_pos_le0)
  qed
  then show ?thesis using b by (simp add: py_range_def)
qed

lemma py_slice_chunk: "0 \<le> i \<Longrightarrow> 0 < b \<Longrightarrow> py_slice xs i (i + b) = take (nat b) (drop (nat i) xs)"
  by (auto simp add: py_slice_def slice_index_def Let_def min_def)

lemma same_effects_refl [simp]: "same_effects w w"
  by (simp add: same_effects_def)

lemma same_effects_emit:
  "same_effects w1 w2 \<Longrightarrow> same_effects (emit ev (w1\<lparr>srv_state := s\<rparr>)) (emit ev (w2\<lparr>srv_state := s\<rparr>))"
  by (simp add: same_effects_def emit_def effects_def)

lemma same_effects_sleep:
  "same_effects w1 w2 \<Longrightarrow> same_effects (time_sleep d w1) (time_sleep d w2)"
  by (simp add: same_effects_def emit_def effects_def time_sleep_def)

lemma same_effects_print:
  "same_effects w1 w2 \<Longrightarrow> same_effects (py_print p w1) w2"
  by (simp add: same_effects_def emit_def effects_def py_print_def)

lemma retry_loop_same:
  "same_effects w1 w2 \<Longrightarrow>
   fst (retry_loop service user_id mid attempts trashed w1) = fst (retry_loop service user_id mid attempts trashed w2)
   \<and> same_effects (snd (retry_loop service user_id mid attempts trashed w1))
                   (snd (retry_loop service user_id mid attempts trashed w2))"
proof (induction attempts arbitrary: w1 w2)
  case Nil
  then show ?case by simp
next
  case (Cons a as)
  have st: "srv_state w1 = srv_state w2" using Cons.prems by (simp add: same_effects_def)
  obtain r s' where ex: "trash_exec service (srv_state w2) user_id mid = (r, s')"
    by (cases "trash_exec service (srv_state w2) user_id mid")
  show ?case
  proof (cases r)
    case (Inr u)
    then show ?thesis using ex st same_effects_emit [OF Cons.prems] by simp
  next
    case (Inl e)
    note emitted = same_effects_emit [OF Cons.prems, of "TrashCall user_id mid (Some e)" s']
    show ?thesis
    proof (cases e)
      case (HttpError status)
      then show ?thesis
        using ex st Inl emitted Cons.IH [OF same_effects_sleep [OF emitted]]
        by (simp add: Let_def)
    qed (use ex st Inl emitted in \<open>simp_all add: Let_def\<close>)
  qed
qed

lemma chunk_loop_same:
  "same_effects w1 w2 \<Longrightarrow>
   fst (chunk_loop service user_id dry_run sleep_s mids trashed w1) = fst (chunk_loop service user_id dry_run sleep_s mids trashed w2)
   \<and> same_effects (snd (chunk_loop service user_id dry_run sleep_s mids trashed w1))
                   (snd (chunk_loop service user_id dry_run sleep_s mids trashed w2))"
proof (induction mids arbitrary: w1 w2 trashed)
  case Nil
  then show ?case by simp
next
  case (Cons mid mids)
  show ?case
  proof (cases dry_run)
    case True
    then show ?thesis using Cons by simp
  next
    case False
    obtain r1 v1 where r1: "retry_loop service user_id mid [0..<5] trashed w1 = (r1, v1)"
      by (cases "retry_loop service user_id mid [0..<5] trashed w1")
    obtain r2 v2 where r2: "retry_loop service user_id mid [0..<5] trashed w2 = (r2, v2)"
      by (cases "retry_loop service user_id mid [0..<5] trashed w2")
    from retry_loop_same [OF Cons.prems, of service user_id mid "[0..<5]" trashed] r1 r2
    have eq: "r1 = r2" and se: "same_effects v1 v2" by simp_all
    show ?thesis
    proof (cases r2)
      case (Inl e)
      then show ?thesis using False r1 r2 eq se by simp
    next
      case (Inr t')
      then show ?thesis
        using False r1 r2 eq Cons.IH [OF same_effects_sleep [OF se]] by simp
    qed
  qed
qed

lemma chunk_loop_append:
  "chunk_loop service user_id dry_run sleep_s (xs @ ys) trashed w =
     (case chunk_loop service user_id dry_run sleep_s xs trashed w of
        (Inl e, w') \<Rightarrow> (Inl e, w')
      | (Inr trashed', w') \<Rightarrow> chunk_loop service user_id dry_run sleep_s ys trashed' w')"
  by (induction xs arbitrary: trashed w) (auto split: prod.splits sum.splits)

lemma drop_take_chunk:
  assumes "j < m"
  shows "drop (j * n) (take (m * n) xs) = take n (drop (j * n) xs) @ drop (Suc j * n) (take (m * n) xs)"
proof -
  from assms have le: "Suc j * n \<le> m * n" by (simp add: Suc_leI mult_le_mono1 del: mult_Suc)
  then have n: "n \<le> m * n - j * n" by simp
  have "drop (j * n) (take (m * n) xs) = take (m * n - j * n) (drop (j * n) xs)"
    by (simp add: drop_take)
  also have "\<dots> = take n (take (m * n - j * n) (drop (j * n) xs)) @ drop n (take (m * n - j * n) (drop (j * n) xs))"
    by (simp only: append_take_drop_id)
  also have "take n (take (m * n - j * n) (drop (j * n) xs)) = take n (drop (j * n) xs)"
    using n by (simp add: min_def)
  also have "drop n (take (m * n - j * n) (drop (j * n) xs)) = drop (Suc j * n) (take (m * n) xs)"
    by (simp add: drop_take add.commute)
  finally show ?thesis .
qed

lemma batch_loop_chunks:
  assumes b: "0 < b" and R: "same_effects w1 w2" and jm: "j \<le> m"
  shows "fst (batch_loop service user_id xs dry_run b sleep_s (map (\<lambda>k. int k * b) [j..<m]) trashed w1)
           = fst (chunk_loop service user_id dry_run sleep_s (drop (j * nat b) (take (m * nat b) xs)) trashed w2)
       \<and> same_effects (snd (batch_loop service user_id xs dry_run b sleep_s (map (\<lambda>k. int k * b) [j..<m]) trashed w1))
                      (snd (chunk_loop service user_id dry_run sleep_s (drop (j * nat b) (take (m * nat b) xs)) trashed w2))"
  using R jm
proof (induction "m - j" arbitrary: j w1 w2 trashed)
  case 0
  then show ?case by simp
next
  case (Suc d)
  then have lt: "j < m" by simp
  let ?chunk = "take (nat b) (drop (j * nat b) xs)"
  have idx: "nat (int j * b) = j * nat b" using b by (simp add: nat_mult_distrib)
  have sl: "py_slice xs (int j * b) (int j * b + b) = ?chunk"
    using b by (simp add: py_slice_chunk idx)
  have split: "drop (j * nat b) (take (m * nat b) xs) = ?chunk @ drop (Suc j * nat b) (take (m * nat b) xs)"
    by (rule drop_take_chunk [OF lt])
  obtain r1 v1 where c1: "chunk_loop service user_id dry_run sleep_s ?chunk trashed w1 = (r1, v1)"
    by (cases "chunk_loop service user_id dry_run sleep_s ?chunk trashed w1")
  obtain r2 v2 where c2: "chunk_loop service user_id dry_run sleep_s ?chunk trashed w2 = (r2, v2)"
    by (cases "chunk_loop service user_id dry_run sleep_s ?chunk trashed w2")
  from chunk_loop_same [OF Suc.prems(1), of service user_id dry_run sleep_s ?chunk trashed] c1 c2
  have eq: "r1 = r2" and se: "same_effects v1 v2" by simp_all
  have up: "[j..<m] = j # [Suc j..<m]" using lt by (simp add: upt_conv_Cons)
  show ?case
  proof (cases r2)
    case (Inl e)
    then show ?thesis
      using c1 c2 eq se by (simp add: up sl split chunk_loop_append del: mult_Suc)
  next
    case (Inr t')
    have d: "d = m - Suc j" using Suc.hyps(2) by simp
    have le: "Suc j \<le> m" using lt by simp
    from Suc.hyps(1) [OF d same_effects_print [OF se] le]
    show ?thesis
      using c1 c2 eq Inr by (simp add: up sl split chunk_loop_append del: mult_Suc)
  qed
qed

lemma chunks_cover:
  assumes "0 < b"
  shows "length xs \<le> nat ((int (length xs) + b - 1) div b) * nat b"
proof -
  let ?n = "int (length xs)"
  have "?n + b - 1 = (?n + b - 1) div b * b + (?n + b - 1) mod b" by simp
  moreover have "(?n + b - 1) mod b < b" using assms by simp
  ultimately have "?n \<le> (?n + b - 1) div b * b" by linarith
  moreover have "0 \<le> (?n + b - 1) div b" using assms by (simp add: pos_imp_zdiv_nonneg_iff)
  ultimately have "?n \<le> int (nat ((?n + b - 1) div b) * nat b)" using assms by simp
  then show ?thesis by linarith
qed

lemma batch_trash_as_chunk:
  assumes "0 < batch_size"
  shows "fst (batch_trash service user_id message_ids dry_run batch_size sleep_s w)
           = fst (chunk_loop service user_id dry_run sleep_s message_ids 0 w)
       \<and> same_effects (snd (batch_trash service user_id message_ids dry_run batch_size sleep_s w))
                      (snd (chunk_loop service user_id dry_run sleep_s message_ids 0 w))"
  using batch_loop_chunks [OF assms same_effects_refl, of 0 "nat ((int (length message_ids) + batch_size - 1) div batch_size)"
          service user_id message_ids dry_run sleep_s 0 w]
    chunks_cover [OF assms, of message_ids] assms
  by (simp add: batch_trash_def py_range_pos)

lemma batch_loop_dry_prints:
  "\<exists>ps t'. batch_loop service user_id xs True b sleep_s is trashed w
      = (Inr t', w\<lparr>trace := trace w @ map Print ps\<rparr>)"
proof (induction "is" arbitrary: trashed w)
  case Nil
  have "w = w\<lparr>trace := trace w @ map Print []\<rparr>" by simp
  then show ?case by (metis batch_loop.simps(1))
next
  case (Cons i "is")
  let ?p = "''Processed '' @ show_int (min (i + b) (int (length xs))) @ ''/'' @ show_int (int (length xs))"
  from Cons [of "trashed + int (length (py_slice xs i (i + b)))" "py_print ?p w"]
  obtain ps t' where
    "batch_loop service user_id xs True b sleep_s is (trashed + int (length (py_slice xs i (i + b)))) (py_print ?p w)
      = (Inr t', (py_print ?p w)\<lparr>trace := trace (py_print ?p w) @ map Print ps\<rparr>)" by blast
  then have "batch_loop service user_id xs True b sleep_s (i # is) trashed w
      = (Inr t', w\<lparr>trace := trace w @ map Print (?p # ps)\<rparr>)"
    by (simp add: chunk_loop_dry py_print_def emit_def)
  then show ?case by blast
qed

lemma concat_chunks:
  "concat (map (\<lambda>k. take n (drop (k * n) xs)) [0..<m]) = take (m * n) xs"
proof (induction m)
  case 0
  then show ?case by simp
next
  case (Suc m)
  have "take (m * n) xs @ take n (drop (m * n) xs) = take (m * n + n) xs"
    by (simp add: take_add)
  then show ?case using Suc by (simp add: add.commute)
qed

subsection \<open>Dry runs, the batch size and the chunking\<close>

text \<open>
  Claim C1. For every list of message ids and every positive \<open>batch_size\<close>,
  \<open>batch_trash\<close> with \<open>dry_run=True\<close> returns the length of the list, and all it
  does is print: the client is left in the state it was in, and the trace grows by
  \<open>Print\<close> events only, so no trash call is issued (and nothing sleeps).
\<close>

theorem batch_trash_dry_run:
  assumes "0 < batch_size"
  shows "\<exists>ps. batch_trash service user_id message_ids True batch_size sleep_s w
           = (Inr (int (length message_ids)), w\<lparr>trace := trace w @ map Print ps\<rparr>)"
proof -
  obtain "is" where r: "py_range 0 (int (length message_ids)) batch_size = Inr is"
    using assms by (simp add: py_range_pos)
  from batch_loop_dry_prints [of service user_id message_ids batch_size sleep_s "is" 0 w]
  obtain ps t' where
    run: "batch_trash service user_id message_ids True batch_size sleep_s w
            = (Inr t', w\<lparr>trace := trace w @ map Print ps\<rparr>)"
    using r by (auto simp add: batch_trash_def)
  from batch_trash_as_chunk [OF assms, of service user_id message_ids True sleep_s w]
  have "Inr t' = (Inr (int (length message_ids)) :: exn + int)"
    by (simp add: run chunk_loop_dry)
  then show ?thesis using run by auto
qed

text \<open>C1 at three ids in chunks of two.\<close>

theorem batch_trash_dry_run_witness:
  "(0::int) < 2 \<and> (\<exists>ps. batch_trash (fake_service []) ''me'' [''a'', ''b'', ''c''] True 2 (1 / 5) (fresh [])
        = (Inr (int (length [''a'', ''b'', ''c''])), (fresh [])\<lparr>trace := trace (fresh ([] :: (exn + unit) list)) @ map Print ps\<rparr>))"
proof -
  have h: "(0::int) < 2" by simp
  note inst = batch_trash_dry_run [OF h, of "fake_service []" "''me''" "[''a'', ''b'', ''c'']" "1 / 5" "fresh []"]
  show ?thesis by (rule conjI [OF h inst])
qed

text \<open>
  Claim C9. \<open>batch_trash\<close> needs \<open>batch_size > 0\<close>: with \<open>batch_size = 0\<close> the
  \<open>range\<close> raises \<open>ValueError\<close> before anything is processed (the world is
  untouched), and with a negative \<open>batch_size\<close> the range is empty, so nothing is
  processed and the result is 0, whatever the list of ids.
\<close>

theorem batch_size_not_positive:
  "batch_trash service user_id message_ids dry_run 0 sleep_s w = (Inl ValueError, w)
   \<and> (batch_size < 0 \<longrightarrow>
        batch_trash service user_id message_ids dry_run batch_size sleep_s w = (Inr 0, w))"
  by (simp add: batch_trash_def py_range_neg) (simp add: py_range_def)

text \<open>C9 at two ids, with batch sizes 0 and -3.\<close>

theorem batch_size_not_positive_witness:
  "batch_trash (fake_service []) ''me'' [''a'', ''b''] False 0 (1 / 5) (fresh []) = (Inl ValueError, fresh [])
   \<and> (- 3 :: int) < 0
   \<and> batch_trash (fake_service []) ''me'' [''a'', ''b''] False (- 3) (1 / 5) (fresh []) = (Inr 0, fresh [])"
  using batch_size_not_positive [of "fake_service []" "''me''" "[''a'', ''b'']" False "1 / 5" "fresh []" "- 3"]
  by simp

text \<open>
  Claim C10. For every positive \<open>batch_size\<close> the chunks concatenate back to the
  list of ids, and \<open>batch_trash\<close> does what the loop over the messages does when it
  is run once over the whole list in its order: the same result, the same final
  client state, and the same trace up to the progress lines. So the chunking
  neither drops, repeats nor reorders an id.
\<close>

theorem chunking_preserves_order:
  assumes "0 < batch_size"
  shows "(\<exists>cs. chunks message_ids batch_size = Inr cs \<and> concat cs = message_ids)
       \<and> fst (batch_trash service user_id message_ids dry_run batch_size sleep_s w)
           = fst (chunk_loop service user_id dry_run sleep_s message_ids 0 w)
       \<and> same_effects (snd (batch_trash service user_id message_ids dry_run batch_size sleep_s w))
                      (snd (chunk_loop service user_id dry_run sleep_s message_ids 0 w))"
proof -
  let ?m = "nat ((int (length message_ids) + batch_size - 1) div batch_size)"
  have sl: "\<And>k. py_slice message_ids (int k * batch_size) (int k * batch_size + batch_size)
              = take (nat batch_size) (drop (k * nat batch_size) message_ids)"
    using assms by (simp add: py_slice_chunk nat_mult_distrib)
  have "chunks message_ids batch_size
          = Inr (map (\<lambda>k. take (nat batch_size) (drop (k * nat batch_size) message_ids)) [0..<?m])"
    using assms by (simp add: chunks_def py_range_pos sl comp_def)
  moreover have "concat (map (\<lambda>k. take (nat batch_size) (drop (k * nat batch_size) message_ids)) [0..<?m])
          = message_ids"
    using chunks_cover [OF assms, of message_ids] by (simp add: concat_chunks)
  ultimately have "\<exists>cs. chunks message_ids batch_size = Inr cs \<and> concat cs = message_ids"
    by simp
  then show ?thesis using batch_trash_as_chunk [OF assms] by blast
qed

text \<open>C10 at three ids in chunks of two, the first trash call failing once with a 429.\<close>

theorem chunking_preserves_order_witness:
  "(0::int) < 2
   \<and> chunks [''a'', ''b'', ''c''] 2 = Inr [[''a'', ''b''], [''c'']]
   \<and> fst (batch_trash (fake_service []) ''me'' [''a'', ''b'', ''c''] False 2 (1 / 5) (fresh [Inl (HttpError (Some 429))]))
       = fst (chunk_loop (fake_service []) ''me'' False (1 / 5) [''a'', ''b'', ''c''] 0 (fresh [Inl (HttpError (Some 429))]))"
proof -
  have h: "(0::int) < 2" by simp
  have c: "chunks [''a'', ''b'', ''c''] 2 = Inr [[''a'', ''b''], [''c'']]" by code_simp
  note inst = chunking_preserves_order [OF h, of "[''a'', ''b'', ''c'']" "fake_service []" "''me''" False "1 / 5"
         "fresh [Inl (HttpError (Some 429))]"]
  show ?thesis using h c inst by (intro conjI) (assumption, assumption, elim conjE, assumption)
qed

subsection \<open>The retry loop\<close>

lemma after_self [simp]: "after w (srv_state w) [] = w"
  by (simp add: after_def)

lemma after_after [simp]: "after (after w s evs) s' evs' = after w s' (evs @ evs')"
  by (simp add: after_def)

lemma emit_after: "emit ev (w\<lparr>srv_state := s\<rparr>) = after w s [ev]"
  by (simp add: emit_def after_def)

lemma sleep_after: "time_sleep d w = after w (srv_state w) [Sleep d]"
  by (simp add: time_sleep_def emit_def after_def)

lemma srv_state_after [simp]: "srv_state (after w s evs) = s"
  by (simp add: after_def)

lemma trace_after [simp]: "trace (after w s evs) = trace w @ evs"
  by (simp add: after_def)

lemma retry_loop_transient:
  assumes "length attempts = length statuses"
    and "\<forall>st\<in>set statuses. transient st"
    and "trash_run service user_id mid (length statuses) (srv_state w)
           = (map (\<lambda>st. Inl (HttpError st)) statuses, s')"
  shows "retry_loop service user_id mid (attempts @ rest) trashed w
           = retry_loop service user_id mid rest trashed
               (after w s' (backoff_events user_id mid attempts statuses))"
  using assms
proof (induction attempts statuses arbitrary: w rule: list_induct2)
  case Nil
  then have "s' = srv_state w" by simp
  then show ?case by simp
next
  case (Cons a as st sts)
  obtain r s1 where ex: "trash_exec service (srv_state w) user_id mid = (r, s1)"
    by (cases "trash_exec service (srv_state w) user_id mid")
  obtain rs s2 where run: "trash_run service user_id mid (length sts) s1 = (rs, s2)"
    by (cases "trash_run service user_id mid (length sts) s1")
  from Cons.prems(2) ex run
  have r: "r = Inl (HttpError st)" and rs: "rs = map (\<lambda>st. Inl (HttpError st)) sts" and s2: "s2 = s'"
    by simp_all
  let ?w1 = "after w s1 [TrashCall user_id mid (Some (HttpError st)), Sleep (2 ^ a * (1 / 2))]"
  have "retry_loop service user_id mid ((a # as) @ rest) trashed w
          = retry_loop service user_id mid (as @ rest) trashed ?w1"
    using ex r Cons.prems(1) by (simp add: emit_after sleep_after)
  also have "\<dots> = retry_loop service user_id mid rest trashed
                      (after ?w1 s' (backoff_events user_id mid as sts))"
    using Cons.prems(1) run rs s2 by (intro Cons.IH) simp_all
  finally show ?case by simp
qed

lemma retry_loop_last:
  "trash_exec service (srv_state w) user_id mid = (r, s') \<Longrightarrow>
   retry_loop service user_id mid (attempt # rest) trashed w =
     (case r of
        Inr u \<Rightarrow> (Inr (trashed + 1), after w s' [TrashCall user_id mid None])
      | Inl e \<Rightarrow>
          if retryable e
          then retry_loop service user_id mid rest trashed
                 (after w s' [TrashCall user_id mid (Some e), Sleep (2 ^ attempt * (1 / 2))])
          else (Inl e, after w s' [TrashCall user_id mid (Some e)]))"
  by (cases r; cases "projl r") (simp_all add: emit_after sleep_after)

lemma upt_split: "k \<le> n \<Longrightarrow> [0..<n] = [0..<k] @ [k..<n]"
  by (metis le_add_diff_inverse upt_add_eq_append zero_le)

lemma backoff_events_snoc:
  "length as = length sts \<Longrightarrow>
   backoff_events u m (as @ [a]) (sts @ [st])
     = backoff_events u m as sts @ [TrashCall u m (Some (HttpError st)), Sleep (2 ^ a * (1 / 2))]"
  by (induction as sts rule: list_induct2) simp_all

lemma backoff_events_append:
  "length as = length sts \<Longrightarrow> backoff_events u m (as @ bs) sts = backoff_events u m as sts"
  by (induction as sts rule: list_induct2) simp_all

lemma length_trash_run: "length (fst (trash_run service user_id mid n s)) = n"
proof (induction n arbitrary: s)
  case 0
  then show ?case by simp
next
  case (Suc n)
  obtain r s1 where ex: "trash_exec service s user_id mid = (r, s1)"
    by (cases "trash_exec service s user_id mid")
  obtain rs s2 where run: "trash_run service user_id mid n s1 = (rs, s2)"
    by (cases "trash_run service user_id mid n s1")
  from Suc [of s1] run have "length rs = n" by simp
  then show ?case using ex run by simp
qed

lemma retry_loop_prefix:
  assumes failures: "trash_run service user_id mid (length statuses) (srv_state w)
                     = (map (\<lambda>st. Inl (HttpError st)) statuses, s1)"
    and transients: "\<forall>st\<in>set statuses. transient st"
    and attempts: "length statuses \<le> 5"
  shows "retry_loop service user_id mid [0..<5] trashed w
           = retry_loop service user_id mid [length statuses..<5] trashed
               (after w s1 (backoff_events user_id mid [0..<5] statuses))"
proof -
  let ?k = "length statuses"
  have split: "[0..<5] = [0..<?k] @ [?k..<5]"
    using attempts by (rule upt_split)
  have ev: "backoff_events user_id mid [0..<?k] statuses = backoff_events user_id mid [0..<5] statuses"
    using backoff_events_append [of "[0..<?k]" statuses user_id mid "[?k..<5]"] split by simp
  show ?thesis
    using retry_loop_transient [OF _ transients failures, of "[0..<?k]" "[?k..<5]" trashed]
    by (simp add: ev split [symmetric])
qed

lemma batch_trash_continue:
  assumes size: "0 < batch_size"
    and earlier: "chunk_loop service user_id False sleep_s earlier 0 w0 = (Inr trashed, w)"
  shows "fst (batch_trash service user_id (earlier @ mid # later) False batch_size sleep_s w0)
           = fst (chunk_loop service user_id False sleep_s (mid # later) trashed w)
       \<and> same_effects (snd (batch_trash service user_id (earlier @ mid # later) False batch_size sleep_s w0))
             (snd (chunk_loop service user_id False sleep_s (mid # later) trashed w))"
proof -
  have "chunk_loop service user_id False sleep_s (earlier @ mid # later) 0 w0
          = chunk_loop service user_id False sleep_s (mid # later) trashed w"
    using earlier by (simp only: chunk_loop_append prod.case sum.case)
  with batch_trash_as_chunk [OF size, of service user_id "earlier @ mid # later" False sleep_s w0]
  show ?thesis by simp
qed

lemma chunk_loop_episode:
  assumes failures: "trash_run service user_id mid (length statuses) (srv_state w)
                     = (map (\<lambda>st. Inl (HttpError st)) statuses, s1)"
    and transients: "\<forall>st\<in>set statuses. transient st"
    and attempts: "length statuses < 5"
    and next_reply: "trash_exec service s1 user_id mid = (r, s')"
    and final: "\<forall>e. r = Inl e \<longrightarrow> \<not> retryable e"
  shows "chunk_loop service user_id False sleep_s (mid # later) trashed w
           = (case r of
                Inr u \<Rightarrow>
                  chunk_loop service user_id False sleep_s later (trashed + 1)
                    (after w s' (backoff_events user_id mid [0..<5] statuses
                                   @ [TrashCall user_id mid None, Sleep sleep_s]))
              | Inl e \<Rightarrow>
                  (Inl e, after w s' (backoff_events user_id mid [0..<5] statuses
                                        @ [TrashCall user_id mid (Some e)])))"
proof -
  let ?k = "length statuses"
  let ?w1 = "after w s1 (backoff_events user_id mid [0..<5] statuses)"
  have up: "[?k..<5] = ?k # [Suc ?k..<5]"
    using attempts by (simp add: upt_conv_Cons)
  have step: "retry_loop service user_id mid [0..<5] trashed w
                = retry_loop service user_id mid (?k # [Suc ?k..<5]) trashed ?w1"
    using retry_loop_prefix [OF failures transients, of trashed] attempts up by simp
  have nxt: "trash_exec service (srv_state ?w1) user_id mid = (r, s')"
    using next_reply by simp
  note last = retry_loop_last [OF nxt, of ?k "[Suc ?k..<5]" trashed]
  show ?thesis
  proof (cases r)
    case (Inr u)
    with step last show ?thesis by (simp add: sleep_after)
  next
    case (Inl e)
    with final have "\<not> retryable e" by simp
    with Inl step last show ?thesis by simp
  qed
qed

lemma chunk_loop_exhausted:
  assumes failures: "trash_run service user_id mid (length statuses) (srv_state w)
                     = (map (\<lambda>st. Inl (HttpError st)) statuses, s1)"
    and transients: "\<forall>st\<in>set statuses. transient st"
    and five: "length statuses = 5"
  shows "chunk_loop service user_id False sleep_s (mid # later) trashed w
           = chunk_loop service user_id False sleep_s later trashed
               (after w s1 (backoff_events user_id mid [0..<5] statuses @ [Sleep sleep_s]))"
  using retry_loop_prefix [OF failures transients, of trashed] five
  by (simp add: sleep_after)

lemma trash_run_snoc:
  "trash_run service user_id mid n s = (rs, s1) \<Longrightarrow>
   trash_exec service s1 user_id mid = (r, s2) \<Longrightarrow>
   trash_run service user_id mid (Suc n) s = (rs @ [r], s2)"
proof (induction n arbitrary: s rs)
  case 0
  then show ?case by simp
next
  case (Suc n)
  obtain r0 t where ex: "trash_exec service s user_id mid = (r0, t)"
    by (cases "trash_exec service s user_id mid")
  obtain rs' t' where run: "trash_run service user_id mid n t = (rs', t')"
    by (cases "trash_run service user_id mid n t")
  from Suc.prems(1) ex run have rs: "rs = r0 # rs'" and t': "t' = s1" by simp_all
  from run t' have "trash_run service user_id mid n t = (rs', s1)" by simp
  from Suc.IH [OF this Suc.prems(2)]
  have step: "trash_run service user_id mid (Suc n) t = (rs' @ [r], s2)" .
  show ?case
    by (simp only: trash_run.simps(2) [of service user_id mid "Suc n" s] ex step rs prod.case append_Cons)
qed

text \<open>
  Claim C2. Take a message whose first \<open>k < 5\<close> trash calls fail with a transient
  status (429, 500 or 503), and let \<open>r\<close> be the client's answer to the next call.
  Each of the \<open>k\<close> failures was retried. If \<open>r\<close> is a success, the loop over the
  messages counts the message, sleeps \<open>sleep_s\<close> and goes on with the next id. If
  \<open>r\<close> is any other exception (an \<open>HttpError\<close> with another status, or no
  \<open>HttpError\<close> at all), it is raised at once: the failed call is the last event and
  \<open>batch_trash\<close> returns that exception, whatever ids come later. If \<open>r\<close> is
  transient again and this was the fifth attempt (attempts 0 to 4), the message is
  given up: the loop over the messages makes no sixth call, sleeps \<open>sleep_s\<close> and
  goes on with the next id, the count unchanged. In every case \<open>batch_trash\<close>, run
  on a list that holds the message, does what the loop over the messages does from
  that message on.
\<close>

theorem retry_policy:
  assumes failures: "trash_run service user_id mid (length statuses) (srv_state w)
                     = (map (\<lambda>st. Inl (HttpError st)) statuses, s1)"
    and transients: "\<forall>st\<in>set statuses. transient st"
    and attempts: "length statuses < 5"
    and next_reply: "trash_exec service s1 user_id mid = (r, s')"
  shows "(r = Inr () \<longrightarrow>
           chunk_loop service user_id False sleep_s (mid # later) trashed w
             = chunk_loop service user_id False sleep_s later (trashed + 1)
                 (after w s' (backoff_events user_id mid [0..<5] statuses
                                @ [TrashCall user_id mid None, Sleep sleep_s])))
       \<and> (\<forall>e. r = Inl e \<and> \<not> retryable e \<longrightarrow>
           chunk_loop service user_id False sleep_s (mid # later) trashed w
             = (Inl e, after w s' (backoff_events user_id mid [0..<5] statuses
                                     @ [TrashCall user_id mid (Some e)]))
           \<and> (\<forall>earlier w0 batch_size.
                 0 < batch_size \<and> chunk_loop service user_id False sleep_s earlier 0 w0 = (Inr trashed, w) \<longrightarrow>
                 fst (batch_trash service user_id (earlier @ mid # later) False batch_size sleep_s w0) = Inl e
                 \<and> same_effects (snd (batch_trash service user_id (earlier @ mid # later) False batch_size sleep_s w0))
                      (after w s' (backoff_events user_id mid [0..<5] statuses
                                     @ [TrashCall user_id mid (Some e)]))))
       \<and> (\<forall>st. r = Inl (HttpError st) \<and> transient st \<and> length statuses = 4 \<longrightarrow>
           chunk_loop service user_id False sleep_s (mid # later) trashed w
             = chunk_loop service user_id False sleep_s later trashed
                 (after w s' (backoff_events user_id mid [0..<5] (statuses @ [st]) @ [Sleep sleep_s])))
       \<and> (\<forall>earlier w0 batch_size.
             0 < batch_size \<and> chunk_loop service user_id False sleep_s earlier 0 w0 = (Inr trashed, w) \<longrightarrow>
             fst (batch_trash service user_id (earlier @ mid # later) False batch_size sleep_s w0)
               = fst (chunk_loop service user_id False sleep_s (mid # later) trashed w)
             \<and> same_effects (snd (batch_trash service user_id (earlier @ mid # later) False batch_size sleep_s w0))
                  (snd (chunk_loop service user_id False sleep_s (mid # later) trashed w)))"
proof -
  have lift: "fst (batch_trash service user_id (earlier @ mid # later) False batch_size sleep_s w0)
               = fst (chunk_loop service user_id False sleep_s (mid # later) trashed w)
             \<and> same_effects (snd (batch_trash service user_id (earlier @ mid # later) False batch_size sleep_s w0))
                  (snd (chunk_loop service user_id False sleep_s (mid # later) trashed w))"
    if "0 < batch_size \<and> chunk_loop service user_id False sleep_s earlier 0 w0 = (Inr trashed, w)"
    for earlier w0 batch_size
    using that batch_trash_continue [of batch_size service user_id sleep_s earlier w0 trashed w mid later]
    by blast
  have success: "chunk_loop service user_id False sleep_s (mid # later) trashed w
             = chunk_loop service user_id False sleep_s later (trashed + 1)
                 (after w s' (backoff_events user_id mid [0..<5] statuses
                                @ [TrashCall user_id mid None, Sleep sleep_s]))"
    if "r = Inr ()"
    using chunk_loop_episode [OF failures transients attempts next_reply, of sleep_s later trashed] that
    by simp
  have abort: "chunk_loop service user_id False sleep_s (mid # later) trashed w
             = (Inl e, after w s' (backoff_events user_id mid [0..<5] statuses
                                     @ [TrashCall user_id mid (Some e)]))"
    if "r = Inl e \<and> \<not> retryable e" for e
    using chunk_loop_episode [OF failures transients attempts next_reply, of sleep_s later trashed] that
    by simp
  have give_up: "chunk_loop service user_id False sleep_s (mid # later) trashed w
             = chunk_loop service user_id False sleep_s later trashed
                 (after w s' (backoff_events user_id mid [0..<5] (statuses @ [st]) @ [Sleep sleep_s]))"
    if h: "r = Inl (HttpError st) \<and> transient st \<and> length statuses = 4" for st
  proof -
    have run: "trash_run service user_id mid (length (statuses @ [st])) (srv_state w)
                 = (map (\<lambda>st. Inl (HttpError st)) (statuses @ [st]), s')"
      using trash_run_snoc [OF failures next_reply] h by simp
    have all: "\<forall>x\<in>set (statuses @ [st]). transient x" using transients h by simp
    have five: "length (statuses @ [st]) = 5" using h by simp
    from chunk_loop_exhausted [OF run all five] show ?thesis .
  qed
  from success abort give_up lift show ?thesis by (intro conjI allI impI) (simp_all del: chunk_loop.simps)
qed

text \<open>
  C2 at three ids in chunks of two: \<open>a\<close> is trashed, \<open>b\<close> fails with 429, 503 and
  then 404, and the run ends with the 404. Then a message that is trashed at the
  second attempt, and one that is given up after five failures, with the sixth
  reply of the client never asked for.
\<close>

theorem retry_policy_witness:
  "trash_run (fake_service []) ''me'' ''b'' 2
       [Inl (HttpError (Some 429)), Inl (HttpError (Some 503)), Inl (HttpError (Some 404))]
     = ([Inl (HttpError (Some 429)), Inl (HttpError (Some 503))], [Inl (HttpError (Some 404))])
   \<and> transient (Some 429) \<and> transient (Some 503) \<and> \<not> retryable (HttpError (Some 404))
   \<and> chunk_loop (fake_service []) ''me'' False (1 / 5) [''a''] 0
        (fresh [Inr (), Inl (HttpError (Some 429)), Inl (HttpError (Some 503)), Inl (HttpError (Some 404))])
       = (Inr 1, \<lparr>srv_state = [Inl (HttpError (Some 429)), Inl (HttpError (Some 503)), Inl (HttpError (Some 404))],
                  trace = [TrashCall ''me'' ''a'' None, Sleep (1 / 5)]\<rparr>)
   \<and> fst (batch_trash (fake_service []) ''me'' [''a'', ''b'', ''c''] False 2 (1 / 5)
        (fresh [Inr (), Inl (HttpError (Some 429)), Inl (HttpError (Some 503)), Inl (HttpError (Some 404))]))
       = Inl (HttpError (Some 404))
   \<and> chunk_loop (fake_service []) ''me'' False (1 / 5) [''b''] 0 (fresh [Inl (HttpError (Some 429))])
       = (Inr 1, \<lparr>srv_state = [],
                  trace = [TrashCall ''me'' ''b'' (Some (HttpError (Some 429))), Sleep (1 / 2),
                           TrashCall ''me'' ''b'' None, Sleep (1 / 5)]\<rparr>)
   \<and> fst (batch_trash (fake_service []) ''me'' [''b''] False 100 (1 / 5)
        (fresh [Inl (HttpError (Some 429)), Inl (HttpError (Some 429)), Inl (HttpError (Some 429)),
                Inl (HttpError (Some 429)), Inl (HttpError (Some 500)), Inl (HttpError (Some 404))]))
       = Inr 0
   \<and> srv_state (snd (chunk_loop (fake_service []) ''me'' False (1 / 5) [''b''] 0
        (fresh [Inl (HttpError (Some 429)), Inl (HttpError (Some 429)), Inl (HttpError (Some 429)),
                Inl (HttpError (Some 429)), Inl (HttpError (Some 500)), Inl (HttpError (Some 404))])))
       = [Inl (HttpError (Some 404))]"
proof -
  let ?start = "fresh [Inr (), Inl (HttpError (Some 429)), Inl (HttpError (Some 503)), Inl (HttpError (Some 404))]"
  let ?w = "\<lparr>srv_state = [Inl (HttpError (Some 429)), Inl (HttpError (Some 503)), Inl (HttpError (Some 404))],
             trace = [TrashCall ''me'' ''a'' None, Sleep (1 / 5)]\<rparr>"
  have run: "trash_run (fake_service []) ''me'' ''b'' 2
       [Inl (HttpError (Some 429)), Inl (HttpError (Some 503)), Inl (HttpError (Some 404))]
     = ([Inl (HttpError (Some 429)), Inl (HttpError (Some 503))], [Inl (HttpError (Some 404))])"
    by code_simp
  have failures: "trash_run (fake_service []) ''me'' ''b'' (length [Some 429, Some (503 :: int)]) (srv_state ?w)
      = (map (\<lambda>st. Inl (HttpError st)) [Some 429, Some 503], [Inl (HttpError (Some 404))])"
    by (simp add: fake_service_def)
  have transients: "\<forall>st\<in>set [Some 429, Some 503]. transient st"
    by (simp add: transient_def)
  have attempts: "length [Some 429, Some (503 :: int)] < 5" by simp
  have next_reply: "trash_exec (fake_service []) [Inl (HttpError (Some 404))] ''me'' ''b''
      = (Inl (HttpError (Some 404)), [])"
    by (simp add: fake_service_def)
  have earlier: "chunk_loop (fake_service []) ''me'' False (1 / 5) [''a''] 0 ?start = (Inr 1, ?w)"
    by (simp add: fake_service_def fresh_def emit_def time_sleep_def upt_rec)
  have nr: "\<not> retryable (HttpError (Some 404))" by (simp add: transient_def)
  have t1: "transient (Some 429)" and t2: "transient (Some 503)" by (simp_all add: transient_def)
  have size: "(0::int) < 2" by simp
  note abort = retry_policy [OF failures transients attempts next_reply, of "1 / 5" "[''c'']" 1,
      THEN conjunct2, THEN conjunct1, rule_format, OF conjI [OF refl nr],
      THEN conjunct2, rule_format, OF conjI [OF size earlier], THEN conjunct1]
  have ids: "[''a''] @ ''b'' # [''c''] = [''a'', ''b'', ''c'']" by simp
  from abort have res: "fst (batch_trash (fake_service []) ''me'' [''a'', ''b'', ''c''] False 2 (1 / 5) ?start)
       = Inl (HttpError (Some 404))"
    by (simp only: ids)

  let ?once = "fresh [Inl (HttpError (Some 429))] :: (exn + unit) list world"
  have failures1: "trash_run (fake_service []) ''me'' ''b'' (length [Some (429 :: int)]) (srv_state ?once)
      = (map (\<lambda>st. Inl (HttpError st)) [Some 429], [])"
    by (simp add: fake_service_def fresh_def)
  have transients1: "\<forall>st\<in>set [Some 429]. transient st"
    by (simp add: transient_def)
  have attempts1: "length [Some (429 :: int)] < 5" by simp
  have next_reply1: "trash_exec (fake_service []) [] ''me'' ''b'' = (Inr (), [])"
    by (simp add: fake_service_def)
  from retry_policy [OF failures1 transients1 attempts1 next_reply1, of "1 / 5" "[]" 0,
      THEN conjunct1, rule_format, OF refl]
  have success: "chunk_loop (fake_service []) ''me'' False (1 / 5) [''b''] 0 ?once
       = (Inr 1, \<lparr>srv_state = [],
                  trace = [TrashCall ''me'' ''b'' (Some (HttpError (Some 429))), Sleep (1 / 2),
                           TrashCall ''me'' ''b'' None, Sleep (1 / 5)]\<rparr>)"
    by (simp add: after_def fresh_def upt_rec)

  let ?five = "fresh [Inl (HttpError (Some 429)), Inl (HttpError (Some 429)), Inl (HttpError (Some 429)),
                Inl (HttpError (Some 429)), Inl (HttpError (Some 500)), Inl (HttpError (Some 404))]
                 :: (exn + unit) list world"
  have failures4: "trash_run (fake_service []) ''me'' ''b'' (length [Some 429, Some 429, Some 429, Some (429 :: int)])
        (srv_state ?five)
      = (map (\<lambda>st. Inl (HttpError st)) [Some 429, Some 429, Some 429, Some 429],
         [Inl (HttpError (Some 500)), Inl (HttpError (Some 404))])"
    by (simp add: fake_service_def fresh_def)
  have transients4: "\<forall>st\<in>set [Some 429, Some 429, Some 429, Some 429]. transient st"
    by (simp add: transient_def)
  have attempts4: "length [Some 429, Some 429, Some 429, Some (429 :: int)] < 5" by simp
  have next_reply4: "trash_exec (fake_service []) [Inl (HttpError (Some 500)), Inl (HttpError (Some 404))] ''me'' ''b''
      = (Inl (HttpError (Some 500)), [Inl (HttpError (Some 404))])"
    by (simp add: fake_service_def)
  have t5: "transient (Some 500)" by (simp add: transient_def)
  have four: "length [Some 429, Some 429, Some 429, Some (429 :: int)] = 4" by simp
  note policy4 = retry_policy [OF failures4 transients4 attempts4 next_reply4, of "1 / 5" "[]" 0]
  note give_up = policy4 [THEN conjunct2, THEN conjunct2, THEN conjunct1, rule_format,
      OF conjI [OF refl conjI [OF t5 four]]]
  from give_up have left: "srv_state (snd (chunk_loop (fake_service []) ''me'' False (1 / 5) [''b''] 0 ?five))
       = [Inl (HttpError (Some 404))]"
    by simp
  from give_up have zero: "fst (chunk_loop (fake_service []) ''me'' False (1 / 5) [''b''] 0 ?five) = Inr 0"
    by simp
  have size': "(0::int) < 100" by simp
  have before: "chunk_loop (fake_service []) ''me'' False (1 / 5) [] 0 ?five = (Inr 0, ?five)"
    by simp
  note whole = policy4 [THEN conjunct2, THEN conjunct2, THEN conjunct2, rule_format,
      OF conjI [OF size' before], THEN conjunct1]
  have one: "[] @ ''b'' # [] = [''b'']" by simp
  from whole zero have gave_up: "fst (batch_trash (fake_service []) ''me'' [''b''] False 100 (1 / 5) ?five) = Inr 0"
    by (simp only: one)
  show ?thesis by (intro conjI run t1 t2 nr earlier res success gave_up left)
qed

text \<open>
  Claim C8. When all five attempts for a message fail with a transient status, the
  retry loop returns without an exception and with the count unchanged; the loop
  over the messages sleeps \<open>sleep_s\<close> and goes on with the next id, and the result
  of \<open>batch_trash\<close> is that of processing the remaining ids from there.
\<close>

theorem exhausted_retries_skip:
  assumes failures: "trash_run service user_id mid 5 (srv_state w)
                     = (map (\<lambda>st. Inl (HttpError st)) statuses, s')"
    and transients: "\<forall>st\<in>set statuses. transient st"
  shows "retry_loop service user_id mid [0..<5] trashed w
           = (Inr trashed, after w s' (backoff_events user_id mid [0..<5] statuses))
       \<and> chunk_loop service user_id False sleep_s (mid # later) trashed w
           = chunk_loop service user_id False sleep_s later trashed
               (time_sleep sleep_s (after w s' (backoff_events user_id mid [0..<5] statuses)))
       \<and> (\<forall>earlier w0 batch_size.
             0 < batch_size \<and> chunk_loop service user_id False sleep_s earlier 0 w0 = (Inr trashed, w) \<longrightarrow>
             fst (batch_trash service user_id (earlier @ mid # later) False batch_size sleep_s w0)
               = fst (chunk_loop service user_id False sleep_s later trashed
                        (time_sleep sleep_s (after w s' (backoff_events user_id mid [0..<5] statuses))))
             \<and> same_effects
                 (snd (batch_trash service user_id (earlier @ mid # later) False batch_size sleep_s w0))
                 (snd (chunk_loop service user_id False sleep_s later trashed
                        (time_sleep sleep_s (after w s' (backoff_events user_id mid [0..<5] statuses))))))"
proof -
  let ?w5 = "after w s' (backoff_events user_id mid [0..<5] statuses)"
  have len: "length statuses = 5"
    using length_trash_run [of service user_id mid 5 "srv_state w"] failures by simp
  have one: "retry_loop service user_id mid [0..<5] trashed w = (Inr trashed, ?w5)"
    using retry_loop_prefix [of service user_id mid statuses w s' trashed] failures transients len
    by simp
  then have two: "chunk_loop service user_id False sleep_s (mid # later) trashed w
           = chunk_loop service user_id False sleep_s later trashed (time_sleep sleep_s ?w5)"
    by simp
  have three: "fst (batch_trash service user_id (earlier @ mid # later) False batch_size sleep_s w0)
               = fst (chunk_loop service user_id False sleep_s later trashed (time_sleep sleep_s ?w5))
             \<and> same_effects
                 (snd (batch_trash service user_id (earlier @ mid # later) False batch_size sleep_s w0))
                 (snd (chunk_loop service user_id False sleep_s later trashed (time_sleep sleep_s ?w5)))"
    if size: "0 < batch_size"
      and earlier: "chunk_loop service user_id False sleep_s earlier 0 w0 = (Inr trashed, w)"
    for earlier w0 batch_size
  proof -
    have "chunk_loop service user_id False sleep_s (earlier @ mid # later) 0 w0
            = chunk_loop service user_id False sleep_s later trashed (time_sleep sleep_s ?w5)"
      using earlier two by (simp only: chunk_loop_append prod.case sum.case)
    with batch_trash_as_chunk [OF size, of service user_id "earlier @ mid # later" False sleep_s w0]
    show ?thesis by simp
  qed
  from one two three show ?thesis by blast
qed

text \<open>C8 at two ids: \<open>a\<close> fails five times, \<open>b\<close> is trashed, and the result is 1.\<close>

theorem exhausted_retries_skip_witness:
  "trash_run (fake_service []) ''me'' ''a'' 5
       [Inl (HttpError (Some 429)), Inl (HttpError (Some 500)), Inl (HttpError (Some 503)),
        Inl (HttpError (Some 429)), Inl (HttpError (Some 429))]
     = (map (\<lambda>st. Inl (HttpError st)) [Some 429, Some 500, Some 503, Some 429, Some 429], [])
   \<and> list_all transient [Some 429, Some 500, Some 503, Some 429, Some 429]
   \<and> fst (retry_loop (fake_service []) ''me'' ''a'' [0..<5] 0
        (fresh [Inl (HttpError (Some 429)), Inl (HttpError (Some 500)), Inl (HttpError (Some 503)),
                Inl (HttpError (Some 429)), Inl (HttpError (Some 429))])) = Inr 0
   \<and> fst (batch_trash (fake_service []) ''me'' [''a'', ''b''] False 2 (1 / 5)
        (fresh [Inl (HttpError (Some 429)), Inl (HttpError (Some 500)), Inl (HttpError (Some 503)),
                Inl (HttpError (Some 429)), Inl (HttpError (Some 429))])) = Inr 1"
proof -
  let ?script = "[Inl (HttpError (Some 429)), Inl (HttpError (Some 500)), Inl (HttpError (Some 503)),
                  Inl (HttpError (Some 429)), Inl (HttpError (Some 429))] :: (exn + unit) list"
  let ?statuses = "[Some 429, Some 500, Some 503, Some 429, Some (429 :: int)]"
  let ?start = "fresh ?script"
  let ?w5 = "after ?start [] (backoff_events ''me'' ''a'' [0..<5] ?statuses)"
  have run: "trash_run (fake_service []) ''me'' ''a'' 5 ?script
               = (map (\<lambda>st. Inl (HttpError st)) ?statuses, [])"
    by code_simp
  have failures: "trash_run (fake_service []) ''me'' ''a'' 5 (srv_state ?start)
               = (map (\<lambda>st. Inl (HttpError st)) ?statuses, [])"
    using run by (simp add: fresh_def)
  have transients: "\<forall>st\<in>set ?statuses. transient st"
    by (simp add: transient_def)
  have all: "list_all transient ?statuses"
    by (simp add: transient_def)
  have size: "(0::int) < 2" by simp
  have earlier: "chunk_loop (fake_service []) ''me'' False (1 / 5) [] 0 ?start = (Inr 0, ?start)"
    by simp
  note skip = exhausted_retries_skip [OF failures transients, of 0 "1 / 5" "[''b'']"]
  from skip have one: "fst (retry_loop (fake_service []) ''me'' ''a'' [0..<5] 0 ?start) = Inr 0"
    by simp
  note rest = skip [THEN conjunct2, THEN conjunct2, rule_format, OF conjI [OF size earlier], THEN conjunct1]
  have later: "fst (chunk_loop (fake_service []) ''me'' False (1 / 5) [''b''] 0 (time_sleep (1 / 5) ?w5)) = Inr 1"
    by (simp add: fake_service_def upt_rec time_sleep_def emit_def)
  have ids: "[] @ ''a'' # [''b''] = [''a'', ''b'']" by simp
  from rest later have two: "fst (batch_trash (fake_service []) ''me'' [''a'', ''b''] False 2 (1 / 5) ?start) = Inr 1"
    by (simp only: ids)
  show ?thesis by (intro conjI run all one two)
qed

lemma sleeps_backoff_events:
  "sleeps (backoff_events user_id mid attempts statuses)
     = map (\<lambda>a. 2 ^ a * (1 / 2)) (take (length statuses) attempts)"
  by (induction user_id mid attempts statuses rule: backoff_events.induct) simp_all

lemma sleeps_append: "sleeps (xs @ ys) = sleeps xs @ sleeps ys"
  by (induction xs rule: sleeps.induct) simp_all

lemma sleeps_effects: "sleeps (effects evs) = sleeps evs"
  by (induction evs rule: sleeps.induct) (simp_all add: effects_def)

lemma backoff_events_upt:
  "backoff_events user_id mid [0..<length statuses] statuses
     = concat (map (\<lambda>k. [TrashCall user_id mid (Some (HttpError (statuses ! k))), Sleep (2 ^ k * (1 / 2))])
                [0..<length statuses])"
proof (induction statuses rule: rev_induct)
  case Nil
  then show ?case by simp
next
  case (snoc st sts)
  have a: "backoff_events user_id mid ([0..<length sts] @ [length sts]) (sts @ [st])
          = backoff_events user_id mid [0..<length sts] sts
              @ [TrashCall user_id mid (Some (HttpError st)), Sleep (2 ^ length sts * (1 / 2))]"
    by (rule backoff_events_snoc) simp
  show ?case
    apply (simp add: a snoc)
    apply (rule arg_cong [where f = concat])
    apply (rule map_cong)
     apply (simp_all add: nth_append)
    done
qed

lemma backoff_events_five:
  assumes "length statuses \<le> 5"
  shows "backoff_events user_id mid [0..<5] statuses
     = concat (map (\<lambda>k. [TrashCall user_id mid (Some (HttpError (statuses ! k))), Sleep (2 ^ k * (1 / 2))])
                [0..<length statuses])"
  using backoff_events_append [of "[0..<length statuses]" statuses user_id mid "[length statuses..<5]"]
    upt_split [OF assms] backoff_events_upt [of user_id mid statuses]
  by simp

lemma sleeps_batch_single:
  assumes size: "0 < batch_size"
    and run: "chunk_loop service user_id False sleep_s [mid] 0 w = (res, after w s evs)"
  shows "sleeps (trace (snd (batch_trash service user_id [mid] False batch_size sleep_s w)))
           = sleeps (trace w) @ sleeps evs"
proof -
  from batch_trash_as_chunk [OF size, of service user_id "[mid]" False sleep_s w] run
  have "effects (trace (snd (batch_trash service user_id [mid] False batch_size sleep_s w)))
          = effects (trace (after w s evs))"
    by (simp add: same_effects_def)
  then have "sleeps (trace (snd (batch_trash service user_id [mid] False batch_size sleep_s w)))
          = sleeps (trace (after w s evs))"
    by (metis sleeps_effects)
  then show ?thesis by (simp add: sleeps_append)
qed

lemma sleeps_backoff_five:
  "length statuses \<le> 5 \<Longrightarrow>
   sleeps (backoff_events user_id mid [0..<5] statuses) = map (\<lambda>k. 2 ^ k * (1 / 2)) [0..<length statuses]"
  by (simp add: sleeps_backoff_events take_upt)

text \<open>
  Claim C5. While the attempts for a message fail with a transient status, the
  \<open>k\<close>-th failed call (counting from 0) is followed at once by a sleep of
  \<open>2 ^ k * (1 / 2)\<close> seconds, in the loop over the messages as \<open>batch_trash\<close> runs
  it: after five failures the events of the message are the five failed calls,
  each with its sleep, and then the sleep of \<open>sleep_s\<close>; after \<open>k < 5\<close> failures
  and a last answer that is not retried they are the \<open>k\<close> failed calls with their
  sleeps and then the last call. The sleeps of \<open>batch_trash\<close> on that one message
  are 0.5, 1, 2, 4 and 8 seconds and then \<open>sleep_s\<close> after five failures, and the
  first \<open>k\<close> of them (and \<open>sleep_s\<close> after a success) otherwise.
\<close>

theorem backoff_durations:
  assumes failures: "trash_run service user_id mid (length statuses) (srv_state w)
                     = (map (\<lambda>st. Inl (HttpError st)) statuses, s1)"
    and transients: "\<forall>st\<in>set statuses. transient st"
  shows "(length statuses = 5 \<longrightarrow>
            chunk_loop service user_id False sleep_s (mid # later) trashed w
              = chunk_loop service user_id False sleep_s later trashed
                  (after w s1
                     (concat (map (\<lambda>k. [TrashCall user_id mid (Some (HttpError (statuses ! k))),
                                         Sleep (2 ^ k * (1 / 2))]) [0..<5])
                      @ [Sleep sleep_s]))
            \<and> (0 < batch_size \<longrightarrow>
                 sleeps (trace (snd (batch_trash service user_id [mid] False batch_size sleep_s w)))
                   = sleeps (trace w) @ [1 / 2, 1, 2, 4, 8, sleep_s]))
       \<and> (\<forall>r s'. length statuses < 5 \<and> trash_exec service s1 user_id mid = (r, s')
                  \<and> (\<forall>e. r = Inl e \<longrightarrow> \<not> retryable e) \<longrightarrow>
            chunk_loop service user_id False sleep_s (mid # later) trashed w
              = (case r of
                   Inr u \<Rightarrow>
                     chunk_loop service user_id False sleep_s later (trashed + 1)
                       (after w s'
                          (concat (map (\<lambda>k. [TrashCall user_id mid (Some (HttpError (statuses ! k))),
                                              Sleep (2 ^ k * (1 / 2))]) [0..<length statuses])
                           @ [TrashCall user_id mid None, Sleep sleep_s]))
                 | Inl e \<Rightarrow>
                     (Inl e,
                      after w s'
                        (concat (map (\<lambda>k. [TrashCall user_id mid (Some (HttpError (statuses ! k))),
                                            Sleep (2 ^ k * (1 / 2))]) [0..<length statuses])
                         @ [TrashCall user_id mid (Some e)])))
            \<and> (0 < batch_size \<longrightarrow>
                 sleeps (trace (snd (batch_trash service user_id [mid] False batch_size sleep_s w)))
                   = sleeps (trace w) @ map (\<lambda>k. 2 ^ k * (1 / 2)) [0..<length statuses]
                       @ (case r of Inr u \<Rightarrow> [sleep_s] | Inl e \<Rightarrow> [])))"
proof (intro conjI impI allI)
  assume five: "length statuses = 5"
  then have le: "length statuses \<le> 5" by simp
  note ev = backoff_events_five [OF le, of user_id mid]
  show "chunk_loop service user_id False sleep_s (mid # later) trashed w
              = chunk_loop service user_id False sleep_s later trashed
                  (after w s1
                     (concat (map (\<lambda>k. [TrashCall user_id mid (Some (HttpError (statuses ! k))),
                                         Sleep (2 ^ k * (1 / 2))]) [0..<5])
                      @ [Sleep sleep_s]))"
    using chunk_loop_exhausted [OF failures transients five, of sleep_s later trashed] ev five
    by simp
  assume size: "0 < batch_size"
  have "chunk_loop service user_id False sleep_s [mid] 0 w
          = (Inr 0, after w s1 (backoff_events user_id mid [0..<5] statuses @ [Sleep sleep_s]))"
    using chunk_loop_exhausted [OF failures transients five, of sleep_s "[]" 0] by simp
  from sleeps_batch_single [OF size this]
  have "sleeps (trace (snd (batch_trash service user_id [mid] False batch_size sleep_s w)))
          = sleeps (trace w) @ map (\<lambda>k. 2 ^ k * (1 / 2)) [0..<length statuses] @ [sleep_s]"
    by (simp add: sleeps_append sleeps_backoff_five [OF le])
  moreover have "map (\<lambda>k. 2 ^ k * (1 / 2)) [0..<5] = [1 / 2, 1, 2, 4, 8 :: rat]"
    by (simp add: upt_rec)
  ultimately show "sleeps (trace (snd (batch_trash service user_id [mid] False batch_size sleep_s w)))
                   = sleeps (trace w) @ [1 / 2, 1, 2, 4, 8, sleep_s]"
    using five by simp
next
  fix r s'
  assume h: "length statuses < 5 \<and> trash_exec service s1 user_id mid = (r, s')
                  \<and> (\<forall>e. r = Inl e \<longrightarrow> \<not> retryable e)"
  then have less: "length statuses < 5" and nxt: "trash_exec service s1 user_id mid = (r, s')"
    and final: "\<forall>e. r = Inl e \<longrightarrow> \<not> retryable e"
    by simp_all
  from less have le: "length statuses \<le> 5" by simp
  note ev = backoff_events_five [OF le, of user_id mid]
  note episode = chunk_loop_episode [OF failures transients less nxt final]
  show "chunk_loop service user_id False sleep_s (mid # later) trashed w
              = (case r of
                   Inr u \<Rightarrow>
                     chunk_loop service user_id False sleep_s later (trashed + 1)
                       (after w s'
                          (concat (map (\<lambda>k. [TrashCall user_id mid (Some (HttpError (statuses ! k))),
                                              Sleep (2 ^ k * (1 / 2))]) [0..<length statuses])
                           @ [TrashCall user_id mid None, Sleep sleep_s]))
                 | Inl e \<Rightarrow>
                     (Inl e,
                      after w s'
                        (concat (map (\<lambda>k. [TrashCall user_id mid (Some (HttpError (statuses ! k))),
                                            Sleep (2 ^ k * (1 / 2))]) [0..<length statuses])
                         @ [TrashCall user_id mid (Some e)])))"
    using episode [of sleep_s later trashed] by (simp only: ev)
  assume size: "0 < batch_size"
  show "sleeps (trace (snd (batch_trash service user_id [mid] False batch_size sleep_s w)))
                   = sleeps (trace w) @ map (\<lambda>k. 2 ^ k * (1 / 2)) [0..<length statuses]
                       @ (case r of Inr u \<Rightarrow> [sleep_s] | Inl e \<Rightarrow> [])"
  proof (cases r)
    case (Inr u)
    with episode [of sleep_s "[]" 0]
    have "chunk_loop service user_id False sleep_s [mid] 0 w
          = (Inr 1, after w s' (backoff_events user_id mid [0..<5] statuses
                                  @ [TrashCall user_id mid None, Sleep sleep_s]))"
      by simp
    from sleeps_batch_single [OF size this] Inr show ?thesis
      by (simp add: sleeps_append sleeps_backoff_five [OF le])
  next
    case (Inl e)
    with episode [of sleep_s "[]" 0]
    have "chunk_loop service user_id False sleep_s [mid] 0 w
          = (Inl e, after w s' (backoff_events user_id mid [0..<5] statuses
                                  @ [TrashCall user_id mid (Some e)]))"
      by simp
    from sleeps_batch_single [OF size this] Inl show ?thesis
      by (simp add: sleeps_append sleeps_backoff_five [OF le])
  qed
qed

text \<open>
  C5 at a message that fails five times, one that is trashed at the third attempt,
  and one whose second attempt ends the run with a 404.
\<close>

theorem backoff_durations_witness:
  "trash_run (fake_service []) ''me'' ''a'' 5
       [Inl (HttpError (Some 429)), Inl (HttpError (Some 500)), Inl (HttpError (Some 503)),
        Inl (HttpError (Some 429)), Inl (HttpError (Some 429))]
     = (map (\<lambda>st. Inl (HttpError st)) [Some 429, Some 500, Some 503, Some 429, Some 429], [])
   \<and> list_all transient [Some 429, Some 500, Some 503, Some 429, Some 429]
   \<and> sleeps (trace (snd (batch_trash (fake_service []) ''me'' [''a''] False 100 (1 / 5)
        (fresh [Inl (HttpError (Some 429)), Inl (HttpError (Some 500)), Inl (HttpError (Some 503)),
                Inl (HttpError (Some 429)), Inl (HttpError (Some 429))]))))
       = [1 / 2, 1, 2, 4, 8, 1 / 5]
   \<and> sleeps (trace (snd (batch_trash (fake_service []) ''me'' [''a''] False 100 (1 / 5)
        (fresh [Inl (HttpError (Some 429)), Inl (HttpError (Some 503))]))))
       = [1 / 2, 1, 1 / 5]
   \<and> sleeps (trace (snd (batch_trash (fake_service []) ''me'' [''a''] False 100 (1 / 5)
        (fresh [Inl (HttpError (Some 429)), Inl (HttpError (Some 404))]))))
       = [1 / 2]"
proof -
  let ?script = "[Inl (HttpError (Some 429)), Inl (HttpError (Some 500)), Inl (HttpError (Some 503)),
                  Inl (HttpError (Some 429)), Inl (HttpError (Some 429))] :: (exn + unit) list"
  let ?statuses = "[Some 429, Some 500, Some 503, Some 429, Some (429 :: int)]"
  let ?start = "fresh ?script"
  have run: "trash_run (fake_service []) ''me'' ''a'' 5 ?script
               = (map (\<lambda>st. Inl (HttpError st)) ?statuses, [])"
    by code_simp
  have failures: "trash_run (fake_service []) ''me'' ''a'' (length ?statuses) (srv_state ?start)
               = (map (\<lambda>st. Inl (HttpError st)) ?statuses, [])"
    by (simp add: fresh_def fake_service_def)
  have transients: "\<forall>st\<in>set ?statuses. transient st"
    by (simp add: transient_def)
  have all: "list_all transient ?statuses"
    by (simp add: transient_def)
  have five: "length ?statuses = 5" by simp
  have size: "(0::int) < 100" by simp
  note d5 = backoff_durations [OF failures transients, THEN conjunct1, rule_format, OF five,
      THEN conjunct2, rule_format, OF size]
  have s5: "sleeps (trace (snd (batch_trash (fake_service []) ''me'' [''a''] False 100 (1 / 5) ?start)))
       = [1 / 2, 1, 2, 4, 8, 1 / 5]"
    using d5 [of "1 / 5"] by (simp add: fresh_def)

  let ?two = "fresh [Inl (HttpError (Some 429)), Inl (HttpError (Some 503))] :: (exn + unit) list world"
  have failures2: "trash_run (fake_service []) ''me'' ''a'' (length [Some 429, Some (503 :: int)]) (srv_state ?two)
               = (map (\<lambda>st. Inl (HttpError st)) [Some 429, Some 503], [])"
    by (simp add: fresh_def fake_service_def)
  have transients2: "\<forall>st\<in>set [Some 429, Some 503]. transient st"
    by (simp add: transient_def)
  have ok: "length [Some 429, Some (503 :: int)] < 5
      \<and> trash_exec (fake_service []) [] ''me'' ''a'' = (Inr (), [])
      \<and> (\<forall>e. (Inr () :: exn + unit) = Inl e \<longrightarrow> \<not> retryable e)"
    by (simp add: fake_service_def)
  note d2 = backoff_durations [OF failures2 transients2, THEN conjunct2, rule_format, OF ok,
      THEN conjunct2, rule_format, OF size]
  have s2: "sleeps (trace (snd (batch_trash (fake_service []) ''me'' [''a''] False 100 (1 / 5) ?two)))
       = [1 / 2, 1, 1 / 5]"
    using d2 [of "1 / 5"] by (simp add: fresh_def upt_rec)

  let ?one = "fresh [Inl (HttpError (Some 429)), Inl (HttpError (Some 404))] :: (exn + unit) list world"
  have failures1: "trash_run (fake_service []) ''me'' ''a'' (length [Some (429 :: int)]) (srv_state ?one)
               = (map (\<lambda>st. Inl (HttpError st)) [Some 429], [Inl (HttpError (Some 404))])"
    by (simp add: fresh_def fake_service_def)
  have transients1: "\<forall>st\<in>set [Some 429]. transient st"
    by (simp add: transient_def)
  have bad: "length [Some (429 :: int)] < 5
      \<and> trash_exec (fake_service []) [Inl (HttpError (Some 404))] ''me'' ''a'' = (Inl (HttpError (Some 404)), [])
      \<and> (\<forall>e. (Inl (HttpError (Some 404)) :: exn + unit) = Inl e \<longrightarrow> \<not> retryable e)"
    by (simp add: fake_service_def transient_def)
  note d1 = backoff_durations [OF failures1 transients1, THEN conjunct2, rule_format, OF bad,
      THEN conjunct2, rule_format, OF size]
  have s1: "sleeps (trace (snd (batch_trash (fake_service []) ''me'' [''a''] False 100 (1 / 5) ?one)))
       = [1 / 2]"
    using d1 [of "1 / 5"] by (simp add: fresh_def upt_rec)
  show ?thesis by (intro conjI run all s5 s2 s1)
qed

subsection \<open>Each id at most once\<close>

lemma trashed_ids_append: "trashed_ids (xs @ ys) = trashed_ids xs @ trashed_ids ys"
  by (induction xs rule: trashed_ids.induct) simp_all

lemma trashed_ids_effects: "trashed_ids (effects evs) = trashed_ids evs"
  by (induction evs rule: trashed_ids.induct) (simp_all add: effects_def)

lemma retry_loop_trashed:
  "(\<exists>w'. retry_loop service user_id mid attempts trashed w = (Inr (trashed + 1), w')
         \<and> trashed_ids (trace w') = trashed_ids (trace w) @ [mid])
   \<or> (\<exists>r w'. retry_loop service user_id mid attempts trashed w = (r, w')
         \<and> (r = Inr trashed \<or> (\<exists>e. r = Inl e))
         \<and> trashed_ids (trace w') = trashed_ids (trace w))"
proof (induction attempts arbitrary: w)
  case Nil
  then show ?case by simp
next
  case (Cons a as)
  obtain r s' where ex: "trash_exec service (srv_state w) user_id mid = (r, s')"
    by (cases "trash_exec service (srv_state w) user_id mid")
  show ?case
  proof (cases r)
    case (Inr u)
    then show ?thesis using ex by (simp add: emit_def trashed_ids_append)
  next
    case (Inl e)
    show ?thesis
    proof (cases "retryable e")
      case False
      then show ?thesis
        using retry_loop_last [OF ex, of a as trashed] Inl by (simp add: trashed_ids_append)
    next
      case True
      let ?w1 = "after w s' [TrashCall user_id mid (Some e), Sleep (2 ^ a * (1 / 2))]"
      have same: "trashed_ids (trace ?w1) = trashed_ids (trace w)"
        by (simp add: trashed_ids_append)
      have "retry_loop service user_id mid (a # as) trashed w = retry_loop service user_id mid as trashed ?w1"
        using retry_loop_last [OF ex, of a as trashed] Inl True by simp
      with Cons [of ?w1] same show ?thesis by simp
    qed
  qed
qed

lemma chunk_loop_trashed:
  "\<exists>ok. trashed_ids (trace (snd (chunk_loop service user_id dry_run sleep_s mids trashed w)))
           = trashed_ids (trace w) @ ok
       \<and> subseq ok mids
       \<and> (\<forall>n. fst (chunk_loop service user_id dry_run sleep_s mids trashed w) = Inr n \<longrightarrow>
              (if dry_run then n = trashed + int (length mids) else n = trashed + int (length ok)))"
proof (induction mids arbitrary: trashed w)
  case Nil
  then show ?case by simp
next
  case (Cons mid mids)
  show ?case
  proof (cases dry_run)
    case True
    then show ?thesis by (simp add: chunk_loop_dry)
  next
    case False
    from retry_loop_trashed [of service user_id mid "[0..<5]" trashed w]
    consider
      (hit) w' where "retry_loop service user_id mid [0..<5] trashed w = (Inr (trashed + 1), w')"
        "trashed_ids (trace w') = trashed_ids (trace w) @ [mid]"
    | (skip) w' where "retry_loop service user_id mid [0..<5] trashed w = (Inr trashed, w')"
        "trashed_ids (trace w') = trashed_ids (trace w)"
    | (fail) e w' where "retry_loop service user_id mid [0..<5] trashed w = (Inl e, w')"
        "trashed_ids (trace w') = trashed_ids (trace w)"
      by blast
    then show ?thesis
    proof cases
      case hit
      from Cons [of "trashed + 1" "time_sleep sleep_s w'"]
      obtain ok where
        t: "trashed_ids (trace (snd (chunk_loop service user_id dry_run sleep_s mids (trashed + 1) (time_sleep sleep_s w'))))
              = trashed_ids (trace (time_sleep sleep_s w')) @ ok"
        and s: "subseq ok mids"
        and n: "\<forall>n. fst (chunk_loop service user_id dry_run sleep_s mids (trashed + 1) (time_sleep sleep_s w')) = Inr n \<longrightarrow>
                  (if dry_run then n = trashed + 1 + int (length mids) else n = trashed + 1 + int (length ok))"
        by blast
      have "trashed_ids (trace (time_sleep sleep_s w')) = trashed_ids (trace w) @ [mid]"
        using hit(2) by (simp add: sleep_after trashed_ids_append)
      with t s n hit(1) False
      have "trashed_ids (trace (snd (chunk_loop service user_id dry_run sleep_s (mid # mids) trashed w)))
              = trashed_ids (trace w) @ (mid # ok)
          \<and> subseq (mid # ok) (mid # mids)
          \<and> (\<forall>n. fst (chunk_loop service user_id dry_run sleep_s (mid # mids) trashed w) = Inr n \<longrightarrow>
                (if dry_run then n = trashed + int (length (mid # mids)) else n = trashed + int (length (mid # ok))))"
        by (simp add: add.assoc)
      then show ?thesis by blast
    next
      case skip
      from Cons [of trashed "time_sleep sleep_s w'"]
      obtain ok where
        t: "trashed_ids (trace (snd (chunk_loop service user_id dry_run sleep_s mids trashed (time_sleep sleep_s w'))))
              = trashed_ids (trace (time_sleep sleep_s w')) @ ok"
        and s: "subseq ok mids"
        and n: "\<forall>n. fst (chunk_loop service user_id dry_run sleep_s mids trashed (time_sleep sleep_s w')) = Inr n \<longrightarrow>
                  (if dry_run then n = trashed + int (length mids) else n = trashed + int (length ok))"
        by blast
      have "trashed_ids (trace (time_sleep sleep_s w')) = trashed_ids (trace w)"
        using skip(2) by (simp add: sleep_after trashed_ids_append)
      with t s n skip(1) False
      have "trashed_ids (trace (snd (chunk_loop service user_id dry_run sleep_s (mid # mids) trashed w)))
              = trashed_ids (trace w) @ ok
          \<and> subseq ok (mid # mids)
          \<and> (\<forall>n. fst (chunk_loop service user_id dry_run sleep_s (mid # mids) trashed w) = Inr n \<longrightarrow>
                (if dry_run then n = trashed + int (length (mid # mids)) else n = trashed + int (length ok)))"
        by (simp add: subseq_drop_many [of ok mids "[mid]", simplified])
      then show ?thesis by blast
    next
      case fail
      with False
      have "trashed_ids (trace (snd (chunk_loop service user_id dry_run sleep_s (mid # mids) trashed w)))
              = trashed_ids (trace w) @ []
          \<and> subseq [] (mid # mids)
          \<and> (\<forall>n. fst (chunk_loop service user_id dry_run sleep_s (mid # mids) trashed w) = Inr n \<longrightarrow>
                (if dry_run then n = trashed + int (length (mid # mids)) else n = trashed + int (length ([] :: string list))))"
        by simp
      then show ?thesis by blast
    qed
  qed
qed

lemma subseq_distinct: "subseq ys xs \<Longrightarrow> distinct xs \<Longrightarrow> distinct ys"
  by (metis subseq_conv_nths distinct_nthsI)

text \<open>
  Claim C6. For a list of distinct ids, the ids of the successful trash calls of a
  run of \<open>batch_trash\<close> are distinct and form a subsequence of the list: each id is
  trashed at most once, in the order of the list. A returned total is at most the
  length of the list, and outside a dry run it is the number of those successful
  calls, so each id counts at most once.
\<close>

theorem processed_at_most_once:
  assumes "distinct message_ids"
  shows "\<exists>ok. trashed_ids (trace (snd (batch_trash service user_id message_ids dry_run batch_size sleep_s w)))
                = trashed_ids (trace w) @ ok
       \<and> subseq ok message_ids \<and> distinct ok
       \<and> (\<forall>n. fst (batch_trash service user_id message_ids dry_run batch_size sleep_s w) = Inr n \<longrightarrow>
              0 \<le> n \<and> n \<le> int (length message_ids) \<and> (\<not> dry_run \<longrightarrow> n = int (length ok)))"
proof -
  let ?run = "batch_trash service user_id message_ids dry_run batch_size sleep_s w"
  have "\<exists>ok. trashed_ids (trace (snd ?run)) = trashed_ids (trace w) @ ok
       \<and> subseq ok message_ids
       \<and> (\<forall>n. fst ?run = Inr n \<longrightarrow>
              0 \<le> n \<and> n \<le> int (length message_ids) \<and> (\<not> dry_run \<longrightarrow> n = int (length ok)))"
  proof (cases "0 < batch_size")
    case True
    let ?loop = "chunk_loop service user_id dry_run sleep_s message_ids 0 w"
    from batch_trash_as_chunk [OF True, of service user_id message_ids dry_run sleep_s w]
    have res: "fst ?run = fst ?loop" and eff: "effects (trace (snd ?run)) = effects (trace (snd ?loop))"
      by (simp_all add: same_effects_def)
    from eff have tr: "trashed_ids (trace (snd ?run)) = trashed_ids (trace (snd ?loop))"
      by (metis trashed_ids_effects)
    from chunk_loop_trashed [of service user_id dry_run sleep_s message_ids 0 w]
    obtain ok where
      t: "trashed_ids (trace (snd ?loop)) = trashed_ids (trace w) @ ok"
      and s: "subseq ok message_ids"
      and n: "\<forall>n. fst ?loop = Inr n \<longrightarrow>
                (if dry_run then n = 0 + int (length message_ids) else n = 0 + int (length ok))"
      by blast
    from s have len: "length ok \<le> length message_ids" by (rule list_emb_length)
    have cnt: "0 \<le> k \<and> k \<le> int (length message_ids) \<and> (\<not> dry_run \<longrightarrow> k = int (length ok))"
      if "fst ?run = Inr k" for k
    proof -
      from that res have "fst ?loop = Inr k" by simp
      note n [rule_format, OF this]
      with len show ?thesis by (cases dry_run) simp_all
    qed
    have "trashed_ids (trace (snd ?run)) = trashed_ids (trace w) @ ok" using t tr by simp
    with s cnt show ?thesis by blast
  next
    case False
    then consider "batch_size = 0" | "batch_size < 0" by linarith
    then have "?run = (Inl ValueError, w) \<or> ?run = (Inr 0, w)"
      by cases (simp_all add: batch_trash_def py_range_neg, simp add: py_range_def)
    then show ?thesis by (intro exI [of _ "[]"]) auto
  qed
  then obtain ok where
    "trashed_ids (trace (snd ?run)) = trashed_ids (trace w) @ ok" "subseq ok message_ids"
    "\<forall>n. fst ?run = Inr n \<longrightarrow>
              0 \<le> n \<and> n \<le> int (length message_ids) \<and> (\<not> dry_run \<longrightarrow> n = int (length ok))"
    by blast
  moreover from this(2) assms have "distinct ok" by (rule subseq_distinct)
  ultimately show ?thesis by blast
qed

text \<open>
  C6 at three ids in chunks of two, where \<open>b\<close> fails five times: \<open>a\<close> and \<open>c\<close> are
  trashed once each and the total is 2.
\<close>

theorem processed_at_most_once_witness:
  "distinct [''a'', ''b'', ''c'']
   \<and> (\<exists>ok. trashed_ids (trace (snd (batch_trash (fake_service []) ''me'' [''a'', ''b'', ''c''] False 2 (1 / 5)
              (fresh [Inr (), Inl (HttpError (Some 429)), Inl (HttpError (Some 500)), Inl (HttpError (Some 503)),
                      Inl (HttpError (Some 429)), Inl (HttpError (Some 429))]))))
            = trashed_ids (trace (fresh [Inr (), Inl (HttpError (Some 429)), Inl (HttpError (Some 500)),
                      Inl (HttpError (Some 503)), Inl (HttpError (Some 429)), Inl (HttpError (Some 429))]
                      :: (exn + unit) list world)) @ ok
         \<and> subseq ok [''a'', ''b'', ''c''] \<and> distinct ok)
   \<and> fst (batch_trash (fake_service []) ''me'' [''a'', ''b'', ''c''] False 2 (1 / 5)
              (fresh [Inr (), Inl (HttpError (Some 429)), Inl (HttpError (Some 500)), Inl (HttpError (Some 503)),
                      Inl (HttpError (Some 429)), Inl (HttpError (Some 429))])) = Inr 2
   \<and> trashed_ids (trace (snd (batch_trash (fake_service []) ''me'' [''a'', ''b'', ''c''] False 2 (1 / 5)
              (fresh [Inr (), Inl (HttpError (Some 429)), Inl (HttpError (Some 500)), Inl (HttpError (Some 503)),
                      Inl (HttpError (Some 429)), Inl (HttpError (Some 429))])))) = [''a'', ''c'']"
proof -
  let ?start = "fresh [Inr (), Inl (HttpError (Some 429)), Inl (HttpError (Some 500)), Inl (HttpError (Some 503)),
                      Inl (HttpError (Some 429)), Inl (HttpError (Some 429))] :: (exn + unit) list world"
  have d: "distinct [''a'', ''b'', ''c'']" by simp
  from processed_at_most_once [OF d, of "fake_service []" "''me''" False 2 "1 / 5" ?start]
  have ex: "\<exists>ok. trashed_ids (trace (snd (batch_trash (fake_service []) ''me'' [''a'', ''b'', ''c''] False 2 (1 / 5) ?start)))
            = trashed_ids (trace ?start) @ ok
         \<and> subseq ok [''a'', ''b'', ''c''] \<and> distinct ok"
    by blast
  have n: "fst (batch_trash (fake_service []) ''me'' [''a'', ''b'', ''c''] False 2 (1 / 5) ?start) = Inr 2"
    by code_simp
  have t: "trashed_ids (trace (snd (batch_trash (fake_service []) ''me'' [''a'', ''b'', ''c''] False 2 (1 / 5) ?start)))
             = [''a'', ''c'']"
    by code_simp
  show ?thesis by (intro conjI d ex n t)
qed

subsection \<open>Pagination\<close>

lemma list_loop_error:
  "list_exec service (srv_state w) user_id query page_token 500 = (Inl e, s') \<Longrightarrow>
   list_loop service user_id query max_messages ids page_token w
     = Some (Inl e, after w s' [ListCall user_id query page_token 500])"
  by (subst list_loop.simps) (simp add: emit_after)

lemma list_loop_page:
  "list_exec service (srv_state w) user_id query page_token 500 = (Inr res, s') \<Longrightarrow>
   page_ids (get_messages res) = Inr new \<Longrightarrow>
   list_loop service user_id query max_messages ids page_token w
     = (if cap_reached max_messages (ids @ new)
        then Some (Inr (cap_ids max_messages (ids @ new)), after w s' [ListCall user_id query page_token 500])
        else if \<not> truthy (nextPageToken res)
        then Some (Inr (ids @ new), after w s' [ListCall user_id query page_token 500])
        else list_loop service user_id query max_messages (ids @ new) (nextPageToken res)
               (after w s' [ListCall user_id query page_token 500]))"
  by (subst list_loop.simps) (simp add: emit_after)

lemma list_loop_pages:
  assumes "paging service user_id query page_token s pages s'"
    and "map (\<lambda>res. page_ids (get_messages res)) pages = map Inr idss"
    and "srv_state w = s"
  shows "list_loop service user_id query None ids page_token w
           = Some (Inr (ids @ concat idss), after w s' (list_calls user_id query page_token pages))"
  using assms
proof (induction arbitrary: ids idss w rule: paging.induct)
  case (last_page s page_token res s')
  then obtain new where idss: "idss = [new]" and new: "page_ids (get_messages res) = Inr new"
    by auto
  from last_page(1,4) have ex: "list_exec service (srv_state w) user_id query page_token 500 = (Inr res, s')"
    by simp
  show ?case
    using list_loop_page [OF ex new, of None ids] last_page(2)
    by (simp add: idss cap_reached_def list_calls_def)
next
  case (next_page s page_token res s1 pages s')
  then obtain new rest where idss: "idss = new # rest" and new: "page_ids (get_messages res) = Inr new"
    and rest: "map (\<lambda>res. page_ids (get_messages res)) pages = map Inr rest"
    by auto
  from next_page(1,6) have ex: "list_exec service (srv_state w) user_id query page_token 500 = (Inr res, s1)"
    by simp
  let ?w1 = "after w s1 [ListCall user_id query page_token 500]"
  have ne: "pages \<noteq> []" using next_page(3) by cases simp_all
  have "list_loop service user_id query None ids page_token w
          = list_loop service user_id query None (ids @ new) (nextPageToken res) ?w1"
    using list_loop_page [OF ex new, of None ids] next_page(2) by (simp add: cap_reached_def)
  also have "\<dots> = Some (Inr ((ids @ new) @ concat rest),
                       after ?w1 s' (list_calls user_id query (nextPageToken res) pages))"
    by (rule next_page.IH [OF rest]) simp
  finally show ?case using ne by (simp add: idss list_calls_def)
qed

lemma list_loop_returns_pages:
  assumes "list_loop service user_id query max_messages ids page_token w = Some res"
  shows "max_messages = None \<longrightarrow> (\<forall>all w'. res = (Inr all, w') \<longrightarrow>
           (\<exists>pages idss. paging service user_id query page_token (srv_state w) pages (srv_state w')
               \<and> map (\<lambda>res. page_ids (get_messages res)) pages = map Inr idss
               \<and> all = ids @ concat idss))"
proof (rule list_loop.raw_induct
    [where P = "\<lambda>service user_id query max_messages ids page_token w res.
       max_messages = None \<longrightarrow> (\<forall>all w'. res = (Inr all, w') \<longrightarrow>
           (\<exists>pages idss. paging service user_id query page_token (srv_state w) pages (srv_state w')
               \<and> map (\<lambda>res. page_ids (get_messages res)) pages = map Inr idss
               \<and> all = ids @ concat idss))", OF _ assms], goal_cases)
  case (1 f service user_id query max_messages ids page_token w res)
  show ?case
  proof (intro impI allI)
    fix all w'
    assume mx: "max_messages = None" and res: "res = (Inr all, w')"
    obtain r s1 where ex: "list_exec service (srv_state w) user_id query page_token 500 = (r, s1)"
      by (cases "list_exec service (srv_state w) user_id query page_token 500")
    let ?w1 = "after w s1 [ListCall user_id query page_token 500]"
    from 1(2) ex res obtain page where r: "r = Inr page"
      by (cases r) (simp_all add: emit_after)
    from 1(2) ex res r obtain new where new: "page_ids (get_messages page) = Inr new"
      by (cases "page_ids (get_messages page)") (simp_all add: emit_after)
    show "\<exists>pages idss. paging service user_id query page_token (srv_state w) pages (srv_state w')
               \<and> map (\<lambda>res. page_ids (get_messages res)) pages = map Inr idss
               \<and> all = ids @ concat idss"
    proof (cases "truthy (nextPageToken page)")
      case False
      with 1(2) ex r new mx res have "all = ids @ new" and "w' = ?w1"
        by (simp_all add: emit_after cap_reached_def)
      moreover have "paging service user_id query page_token (srv_state w) [page] s1"
        using ex r False by (intro paging.last_page) simp_all
      ultimately have "paging service user_id query page_token (srv_state w) [page] (srv_state w')
               \<and> map (\<lambda>res. page_ids (get_messages res)) [page] = map Inr [new]
               \<and> all = ids @ concat [new]"
        using new by simp
      then show ?thesis by blast
    next
      case True
      with 1(2) ex r new mx
      have "f service user_id query max_messages (ids @ new) (nextPageToken page) ?w1 = Some res"
        by (simp add: emit_after cap_reached_def)
      from 1(1) [OF this] mx res obtain pages idss where
        p: "paging service user_id query (nextPageToken page) (srv_state ?w1) pages (srv_state w')"
        and i: "map (\<lambda>res. page_ids (get_messages res)) pages = map Inr idss"
        and a: "all = (ids @ new) @ concat idss"
        by blast
      have "paging service user_id query page_token (srv_state w) (page # pages) (srv_state w')"
        using ex r True p by (intro paging.next_page [where ?s1.0 = s1]) simp_all
      with i a new
      have "paging service user_id query page_token (srv_state w) (page # pages) (srv_state w')
               \<and> map (\<lambda>res. page_ids (get_messages res)) (page # pages) = map Inr (new # idss)
               \<and> all = ids @ concat (new # idss)"
        by simp
      then show ?thesis by blast
    qed
  qed
qed

lemma first_page_exec:
  "list_exec (fake_service two_pages) s ''me'' DEFAULT_QUERY None 500 = (Inr first_page, s)"
  by (simp add: fake_service_def two_pages_def)

lemma second_page_exec:
  "list_exec (fake_service two_pages) s ''me'' DEFAULT_QUERY (Some ''t1'') 500 = (Inr second_page, s)"
  by (simp add: fake_service_def two_pages_def)

lemma first_page_ids: "page_ids (get_messages first_page) = Inr [''m1'', ''m2'']"
  by (simp add: first_page_def get_messages_def msg_def)

lemma second_page_ids: "page_ids (get_messages second_page) = Inr [''m3'']"
  by (simp add: second_page_def get_messages_def msg_def)

lemma two_pages_paging:
  "paging (fake_service two_pages) ''me'' DEFAULT_QUERY None s [first_page, second_page] s"
  by (intro paging.next_page [OF first_page_exec] paging.last_page [where s = s])
     (simp_all add: first_page_def second_page_def second_page_exec [unfolded second_page_def])

text \<open>
  Claim C4. With no cap, \<open>list_message_ids\<close> returns the ids of every result page,
  concatenated in order, and stops exactly at the first response without a
  next-page token (a missing or an empty one): when the pages \<open>pages\<close> are what the
  client hands out and every message in them has an id, the function returns the
  concatenation of their ids after exactly the calls \<open>list_calls\<close> that fetch them;
  and whenever it returns a list, the list is the concatenation of the ids of such
  pages.
\<close>

theorem pagination_concatenates:
  "(paging service user_id query None (srv_state w) pages s'
      \<and> map (\<lambda>res. page_ids (get_messages res)) pages = map Inr idss \<longrightarrow>
    list_message_ids service user_id query None w
      = Some (Inr (concat idss), after w s' (list_calls user_id query None pages)))
   \<and> (list_message_ids service user_id query None w = Some (Inr ids, w') \<longrightarrow>
        (\<exists>pages idss. paging service user_id query None (srv_state w) pages (srv_state w')
           \<and> map (\<lambda>res. page_ids (get_messages res)) pages = map Inr idss
           \<and> ids = concat idss))"
proof (intro conjI impI)
  assume "paging service user_id query None (srv_state w) pages s'
      \<and> map (\<lambda>res. page_ids (get_messages res)) pages = map Inr idss"
  then have p: "paging service user_id query None (srv_state w) pages s'"
    and i: "map (\<lambda>res. page_ids (get_messages res)) pages = map Inr idss"
    by simp_all
  from list_loop_pages [OF p i refl, of "[]"]
  show "list_message_ids service user_id query None w
      = Some (Inr (concat idss), after w s' (list_calls user_id query None pages))"
    by (simp add: list_message_ids_def)
next
  assume "list_message_ids service user_id query None w = Some (Inr ids, w')"
  then have "list_loop service user_id query None [] None w = Some (Inr ids, w')"
    by (simp add: list_message_ids_def)
  from list_loop_returns_pages [OF this]
  show "\<exists>pages idss. paging service user_id query None (srv_state w) pages (srv_state w')
           \<and> map (\<lambda>res. page_ids (get_messages res)) pages = map Inr idss
           \<and> ids = concat idss"
    by simp
qed

text \<open>C4 at the search with two pages: two calls, three ids.\<close>

theorem pagination_concatenates_witness:
  "paging (fake_service two_pages) ''me'' DEFAULT_QUERY None [] [first_page, second_page] []
   \<and> map (\<lambda>res. page_ids (get_messages res)) [first_page, second_page] = map Inr [[''m1'', ''m2''], [''m3'']]
   \<and> list_message_ids (fake_service two_pages) ''me'' DEFAULT_QUERY None (fresh [])
       = Some (Inr [''m1'', ''m2'', ''m3''],
               \<lparr>srv_state = [],
                trace = [ListCall ''me'' DEFAULT_QUERY None 500, ListCall ''me'' DEFAULT_QUERY (Some ''t1'') 500]\<rparr>)"
proof -
  have p: "paging (fake_service two_pages) ''me'' DEFAULT_QUERY None
             (srv_state (fresh ([] :: (exn + unit) list))) [first_page, second_page] []"
    using two_pages_paging [of "[]"] by (simp add: fresh_def)
  have i: "map (\<lambda>res. page_ids (get_messages res)) [first_page, second_page] = map Inr [[''m1'', ''m2''], [''m3'']]"
    by (simp add: first_page_ids second_page_ids)
  from pagination_concatenates [THEN conjunct1, rule_format, OF conjI [OF p i]]
  have r: "list_message_ids (fake_service two_pages) ''me'' DEFAULT_QUERY None (fresh [])
       = Some (Inr [''m1'', ''m2'', ''m3''],
               \<lparr>srv_state = [],
                trace = [ListCall ''me'' DEFAULT_QUERY None 500, ListCall ''me'' DEFAULT_QUERY (Some ''t1'') 500]\<rparr>)"
    by (simp add: after_def fresh_def list_calls_def first_page_def)
  show ?thesis by (intro conjI two_pages_paging i r)
qed

lemma cap_ids_take: "0 \<le> n \<Longrightarrow> cap_ids (Some n) xs = take (nat n) xs"
  by (simp add: cap_ids_def py_slice_def slice_index_def Let_def min_def)

lemma list_loop_capped_pages:
  assumes "paging service user_id query page_token s pages s'"
    and "map (\<lambda>res. page_ids (get_messages res)) pages = map Inr idss"
    and "srv_state w = s"
    and "0 \<le> n"
  shows "\<exists>w'. list_loop service user_id query (Some n) ids page_token w
           = Some (Inr (take (nat n) (ids @ concat idss)), w')"
  using assms
proof (induction arbitrary: ids idss w rule: paging.induct)
  case (last_page s page_token res s')
  then obtain new where idss: "idss = [new]" and new: "page_ids (get_messages res) = Inr new"
    by auto
  from last_page(1,4) have ex: "list_exec service (srv_state w) user_id query page_token 500 = (Inr res, s')"
    by simp
  show ?case
    using list_loop_page [OF ex new, of "Some n" ids] last_page(2,5)
    by (auto simp add: idss cap_reached_def cap_ids_take)
next
  case (next_page s page_token res s1 pages s')
  then obtain new rest where idss: "idss = new # rest" and new: "page_ids (get_messages res) = Inr new"
    and rest: "map (\<lambda>res. page_ids (get_messages res)) pages = map Inr rest"
    by auto
  from next_page(1,6) have ex: "list_exec service (srv_state w) user_id query page_token 500 = (Inr res, s1)"
    by simp
  let ?w1 = "after w s1 [ListCall user_id query page_token 500]"
  show ?case
  proof (cases "cap_reached (Some n) (ids @ new)")
    case True
    then have "take (nat n) (ids @ concat idss) = take (nat n) (ids @ new)"
      using next_page.prems(3) by (simp add: idss cap_reached_def)
    then show ?thesis
      using list_loop_page [OF ex new, of "Some n" ids] True next_page.prems(3)
      by (simp add: cap_ids_take)
  next
    case False
    have "srv_state ?w1 = s1" by simp
    from next_page.IH [OF rest this next_page.prems(3), of "ids @ new"]
    show ?thesis
      using list_loop_page [OF ex new, of "Some n" ids] False next_page(2)
      by (simp add: idss)
  qed
qed

lemma list_loop_capped_returns:
  assumes "list_loop service user_id query max_messages ids page_token w = Some res"
  shows "max_messages = Some n \<longrightarrow> 0 \<le> n \<longrightarrow> (\<forall>out w'. res = (Inr out, w') \<longrightarrow>
           int (length out) \<le> n
           \<and> (int (length out) < n \<longrightarrow>
                list_loop service user_id query None ids page_token w = Some res))"
proof (rule list_loop.raw_induct
    [where P = "\<lambda>service user_id query max_messages ids page_token w res.
       max_messages = Some n \<longrightarrow> 0 \<le> n \<longrightarrow> (\<forall>out w'. res = (Inr out, w') \<longrightarrow>
           int (length out) \<le> n
           \<and> (int (length out) < n \<longrightarrow>
                list_loop service user_id query None ids page_token w = Some res))", OF _ assms], goal_cases)
  case (1 f service user_id query max_messages ids page_token w res)
  show ?case
  proof (intro impI allI)
    fix out w'
    assume mx: "max_messages = Some n" and n: "0 \<le> n" and res: "res = (Inr out, w')"
    obtain r s1 where ex: "list_exec service (srv_state w) user_id query page_token 500 = (r, s1)"
      by (cases "list_exec service (srv_state w) user_id query page_token 500")
    let ?w1 = "after w s1 [ListCall user_id query page_token 500]"
    from 1(2) ex res obtain page where r: "r = Inr page"
      by (cases r) (simp_all add: emit_after)
    from 1(2) ex res r obtain new where new: "page_ids (get_messages page) = Inr new"
      by (cases "page_ids (get_messages page)") (simp_all add: emit_after)
    from ex r have ex': "list_exec service (srv_state w) user_id query page_token 500 = (Inr page, s1)"
      by simp
    note uncapped = list_loop_page [OF ex' new, of None ids]
    show "int (length out) \<le> n
           \<and> (int (length out) < n \<longrightarrow>
                list_loop service user_id query None ids page_token w = Some res)"
    proof (cases "cap_reached (Some n) (ids @ new)")
      case True
      with 1(2) ex r new mx res have "out = take (nat n) (ids @ new)"
        by (simp add: emit_after cap_ids_take [OF n])
      with True n have "int (length out) = n"
        by (simp add: cap_reached_def)
      then show ?thesis by simp
    next
      case False
      then have short: "int (length (ids @ new)) < n" by (simp add: cap_reached_def)
      show ?thesis
      proof (cases "truthy (nextPageToken page)")
        case no: False
        with 1(2) ex r new mx False have "res = (Inr (ids @ new), ?w1)"
          by (simp add: emit_after)
        with res short uncapped no show ?thesis by (simp add: cap_reached_def)
      next
        case yes: True
        with 1(2) ex r new mx False
        have "f service user_id query max_messages (ids @ new) (nextPageToken page) ?w1 = Some res"
          by (simp add: emit_after)
        from 1(1) [OF this] mx n res
        have "int (length out) \<le> n
           \<and> (int (length out) < n \<longrightarrow>
                list_loop service user_id query None (ids @ new) (nextPageToken page) ?w1 = Some res)"
          by blast
        with uncapped yes show ?thesis by (simp add: cap_reached_def)
      qed
    qed
  qed
qed

lemma two_pages_uncapped:
  "list_message_ids (fake_service two_pages) ''me'' DEFAULT_QUERY None (fresh [])
     = Some (Inr [''m1'', ''m2'', ''m3''],
             after (fresh []) [] (list_calls ''me'' DEFAULT_QUERY None [first_page, second_page]))"
proof -
  have p: "paging (fake_service two_pages) ''me'' DEFAULT_QUERY None
             (srv_state (fresh ([] :: (exn + unit) list))) [first_page, second_page] []"
    using two_pages_paging [of "[]"] by (simp add: fresh_def)
  have i: "map (\<lambda>res. page_ids (get_messages res)) [first_page, second_page] = map Inr [[''m1'', ''m2''], [''m3'']]"
    by (simp add: first_page_ids second_page_ids)
  from list_loop_pages [OF p i refl, of "[]"] show ?thesis
    by (simp add: list_message_ids_def)
qed

text \<open>
  Claim C3, amended to caps that are not negative. For \<open>0 \<le> n\<close>, a list returned
  under the cap \<open>n\<close> has at most \<open>n\<close> ids, and when it has fewer, it is the list the
  search returns with no cap; and when the search with no cap returns the list
  \<open>all\<close>, the search capped at \<open>n\<close> returns its first \<open>n\<close> ids (all of them when
  there are fewer than \<open>n\<close>).
\<close>

theorem max_caps_result:
  assumes "0 \<le> n"
  shows "(\<forall>ids w'. list_message_ids service user_id query (Some n) w = Some (Inr ids, w') \<longrightarrow>
            int (length ids) \<le> n
            \<and> (int (length ids) < n \<longrightarrow>
                 list_message_ids service user_id query None w = Some (Inr ids, w')))
       \<and> (\<forall>all w_all. list_message_ids service user_id query None w = Some (Inr all, w_all) \<longrightarrow>
            (\<exists>w'. list_message_ids service user_id query (Some n) w
                     = Some (Inr (take (nat n) all), w')))"
proof (intro conjI allI impI)
  fix ids w'
  assume run: "list_message_ids service user_id query (Some n) w = Some (Inr ids, w')"
  then have "list_loop service user_id query (Some n) [] None w = Some (Inr ids, w')"
    by (simp add: list_message_ids_def)
  from list_loop_capped_returns [OF this, of n] assms
  have both: "int (length ids) \<le> n
           \<and> (int (length ids) < n \<longrightarrow>
                list_loop service user_id query None [] None w = Some (Inr ids, w'))"
    by blast
  then show "int (length ids) \<le> n" by simp
  assume "int (length ids) < n"
  with both show "list_message_ids service user_id query None w = Some (Inr ids, w')"
    by (simp add: list_message_ids_def)
next
  fix all w_all
  assume "list_message_ids service user_id query None w = Some (Inr all, w_all)"
  then have "list_loop service user_id query None [] None w = Some (Inr all, w_all)"
    by (simp add: list_message_ids_def)
  from list_loop_returns_pages [OF this] obtain pages idss where
    p: "paging service user_id query None (srv_state w) pages (srv_state w_all)"
    and i: "map (\<lambda>res. page_ids (get_messages res)) pages = map Inr idss"
    and a: "all = [] @ concat idss"
    by blast
  from list_loop_capped_pages [OF p i refl assms, of "[]"] a
  show "\<exists>w'. list_message_ids service user_id query (Some n) w = Some (Inr (take (nat n) all), w')"
    by (simp add: list_message_ids_def)
qed

text \<open>C3 (amended) at the search with two pages and the cap 2.\<close>

theorem max_caps_result_witness:
  "(0::int) \<le> 2
   \<and> list_message_ids (fake_service two_pages) ''me'' DEFAULT_QUERY None (fresh [])
       = Some (Inr [''m1'', ''m2'', ''m3''],
             after (fresh []) [] (list_calls ''me'' DEFAULT_QUERY None [first_page, second_page]))
   \<and> (\<exists>w'. list_message_ids (fake_service two_pages) ''me'' DEFAULT_QUERY (Some 2) (fresh [])
              = Some (Inr [''m1'', ''m2''], w'))"
proof -
  have n: "(0::int) \<le> 2" by simp
  from max_caps_result [OF n, THEN conjunct2, rule_format, OF two_pages_uncapped]
  have "\<exists>w'. list_message_ids (fake_service two_pages) ''me'' DEFAULT_QUERY (Some 2) (fresh [])
              = Some (Inr [''m1'', ''m2''], w')"
    by simp
  with n two_pages_uncapped show ?thesis by blast
qed

text \<open>
  Claim C3 as stated fails for a negative cap: with \<open>--max -1\<close> the test
  \<open>len(ids) >= max_messages\<close> holds after the first page, and \<open>ids[:-1]\<close> drops the
  last id of that page. Of the three matches one is returned.
\<close>

theorem negative_max_counterexample:
  "map_option fst (list_message_ids (fake_service two_pages) ''me'' DEFAULT_QUERY (Some (- 1)) (fresh []))
     = Some (Inr [''m1''])
   \<and> map_option fst (list_message_ids (fake_service two_pages) ''me'' DEFAULT_QUERY None (fresh []))
     = Some (Inr [''m1'', ''m2'', ''m3''])"
proof -
  have ex: "list_exec (fake_service two_pages) (srv_state (fresh ([] :: (exn + unit) list))) ''me'' DEFAULT_QUERY None 500
              = (Inr first_page, [])"
    by (simp add: first_page_exec fresh_def)
  from list_loop_page [OF ex first_page_ids, of "Some (- 1)" "[]"]
  have "map_option fst (list_message_ids (fake_service two_pages) ''me'' DEFAULT_QUERY (Some (- 1)) (fresh []))
     = Some (Inr [''m1''])"
    by (simp add: list_message_ids_def cap_reached_def cap_ids_def py_slice_def slice_index_def)
  then show ?thesis by (simp add: two_pages_uncapped)
qed

subsection \<open>Errors outside the trash call\<close>

lemma cap_reached_append: "cap_reached max_messages xs \<Longrightarrow> cap_reached max_messages (xs @ ys)"
  by (cases max_messages) (simp_all add: cap_reached_def)

lemma list_loop_fetched:
  assumes "fetched service user_id query page_token s pages tok s1"
    and "map (\<lambda>res. page_ids (get_messages res)) pages = map Inr idss"
    and "srv_state w = s"
    and "pages \<noteq> [] \<longrightarrow> \<not> cap_reached max_messages (ids @ concat idss)"
  shows "list_loop service user_id query max_messages ids page_token w
           = list_loop service user_id query max_messages (ids @ concat idss) tok
               (after w s1 (map (\<lambda>t. ListCall user_id query t 500)
                              (butlast (page_token # map nextPageToken pages))))"
  using assms
proof (induction arbitrary: ids idss w rule: fetched.induct)
  case (no_page page_token s)
  then show ?case by auto
next
  case (one_more s page_token res s1 pages tok s')
  then obtain new rest where idss: "idss = new # rest" and new: "page_ids (get_messages res) = Inr new"
    and rest: "map (\<lambda>res. page_ids (get_messages res)) pages = map Inr rest"
    by auto
  from one_more(1,6) have ex: "list_exec service (srv_state w) user_id query page_token 500 = (Inr res, s1)"
    by simp
  let ?w1 = "after w s1 [ListCall user_id query page_token 500]"
  from one_more.prems(3) have open_all: "\<not> cap_reached max_messages ((ids @ new) @ concat rest)"
    by (simp add: idss)
  then have open_now: "\<not> cap_reached max_messages (ids @ new)"
    using cap_reached_append by blast
  have "list_loop service user_id query max_messages ids page_token w
          = list_loop service user_id query max_messages (ids @ new) (nextPageToken res) ?w1"
    using list_loop_page [OF ex new, of max_messages ids] one_more(2) open_now by simp
  also have "\<dots> = list_loop service user_id query max_messages ((ids @ new) @ concat rest) tok
                      (after ?w1 s' (map (\<lambda>t. ListCall user_id query t 500)
                                       (butlast (nextPageToken res # map nextPageToken pages))))"
    using open_all by (intro one_more.IH [OF rest]) simp_all
  finally show ?case by (simp add: idss)
qed

lemma list_message_ids_later_error:
  assumes "fetched service user_id query None (srv_state w) pages tok s1"
    and "map (\<lambda>res. page_ids (get_messages res)) pages = map Inr idss"
    and "pages \<noteq> [] \<longrightarrow> \<not> cap_reached max_messages (concat idss)"
    and "list_exec service s1 user_id query tok 500 = (Inl e, s')"
  shows "list_message_ids service user_id query max_messages w
           = Some (Inl e, after w s' (map (\<lambda>t. ListCall user_id query t 500)
                                       (butlast (None # map nextPageToken pages))
                                     @ [ListCall user_id query tok 500]))"
proof -
  let ?w1 = "after w s1 (map (\<lambda>t. ListCall user_id query t 500) (butlast (None # map nextPageToken pages)))"
  have "list_message_ids service user_id query max_messages w
          = list_loop service user_id query max_messages ([] @ concat idss) tok ?w1"
    unfolding list_message_ids_def
    using assms(3) by (intro list_loop_fetched [OF assms(1,2) refl]) simp
  also have "\<dots> = Some (Inl e, after ?w1 s' [ListCall user_id query tok 500])"
    using assms(4) by (intro list_loop_error) simp
  finally show ?thesis by simp
qed

lemma errors_propagate_steps:
  "(list_exec service (srv_state w) user_id query page_token 500 = (Inl e, s') \<longrightarrow>
      list_loop service user_id query max_messages ids page_token w
        = Some (Inl e, after w s' [ListCall user_id query page_token 500]))
   \<and> (get_gmail_service env (arg_credentials a) (arg_token a) w0 = (Inr service, w1)
        \<and> list_message_ids service (arg_user a) (arg_query a) (arg_max a)
             (py_print (''Searching with query:'' @ [CHR 0x0A] @ ''  '' @ arg_query a) w1) = Some (Inl e, w2) \<longrightarrow>
      main env a w0 = Some (Inl e, w2) \<and> exit_status (main env a w0) = Some 1)
   \<and> (get_gmail_service env (arg_credentials a) (arg_token a) w0 = (Inl e, w1) \<longrightarrow>
      main env a w0 = Some (Inl e, w1) \<and> exit_status (main env a w0) = Some 1)
   \<and> (expired c \<and> truthy (refresh_token c) \<and> refresh env c = Inl e \<longrightarrow>
      renew_creds env credentials_path (Some c) = Inl e)
   \<and> (\<not> (expired c \<and> truthy (refresh_token c)) \<and> from_client_secrets_file env credentials_path SCOPES = Inl e \<longrightarrow>
      renew_creds env credentials_path (Some c) = Inl e \<and> renew_creds env credentials_path None = Inl e)
   \<and> (\<not> (expired c \<and> truthy (refresh_token c)) \<and> from_client_secrets_file env credentials_path SCOPES = Inr flow
        \<and> run_local_server env flow 0 = Inl e \<longrightarrow>
      renew_creds env credentials_path (Some c) = Inl e \<and> renew_creds env credentials_path None = Inl e)
   \<and> ((load_creds env token_path = None \<or> (\<exists>c'. load_creds env token_path = Some c' \<and> \<not> valid c'))
        \<and> renew_creds env credentials_path (load_creds env token_path) = Inl e \<longrightarrow>
      get_gmail_service env credentials_path token_path w0 = (Inl e, w0))
   \<and> ((load_creds env token_path = None \<or> (\<exists>c'. load_creds env token_path = Some c' \<and> \<not> valid c'))
        \<and> renew_creds env credentials_path (load_creds env token_path) = Inr c
        \<and> write_file env token_path (to_json c) = Some e \<longrightarrow>
      get_gmail_service env credentials_path token_path w0 = (Inl e, w0))
   \<and> ((load_creds env token_path = None \<or> (\<exists>c'. load_creds env token_path = Some c' \<and> \<not> valid c'))
        \<and> renew_creds env credentials_path (load_creds env token_path) = Inr c
        \<and> write_file env token_path (to_json c) = None
        \<and> build env ''gmail'' ''v1'' c = Inl e \<longrightarrow>
      get_gmail_service env credentials_path token_path w0
        = (Inl e, emit (WriteFile token_path (to_json c)) w0))
   \<and> (load_creds env token_path = Some c \<and> valid c \<and> build env ''gmail'' ''v1'' c = Inl e \<longrightarrow>
      get_gmail_service env credentials_path token_path w0 = (Inl e, w0))
   \<and> (from_authorized_user_file env token_path SCOPES = Inl e \<longrightarrow>
      load_creds env token_path = None
      \<and> get_gmail_service env credentials_path token_path w0
          = (case renew_and_store env credentials_path token_path None w0 of
               (Inl e', w') \<Rightarrow> (Inl e', w')
             | (Inr c', w') \<Rightarrow>
                 (case build env ''gmail'' ''v1'' c' of
                    Inl e' \<Rightarrow> (Inl e', w')
                  | Inr service \<Rightarrow> (Inr service, w'))))"
proof (intro conjI)
  show "list_exec service (srv_state w) user_id query page_token 500 = (Inl e, s') \<longrightarrow>
      list_loop service user_id query max_messages ids page_token w
        = Some (Inl e, after w s' [ListCall user_id query page_token 500])"
    by (simp add: list_loop_error)
  show "get_gmail_service env (arg_credentials a) (arg_token a) w0 = (Inr service, w1)
        \<and> list_message_ids service (arg_user a) (arg_query a) (arg_max a)
             (py_print (''Searching with query:'' @ [CHR 0x0A] @ ''  '' @ arg_query a) w1) = Some (Inl e, w2) \<longrightarrow>
      main env a w0 = Some (Inl e, w2) \<and> exit_status (main env a w0) = Some 1"
    by (simp add: main_def exit_status_def)
  show "get_gmail_service env (arg_credentials a) (arg_token a) w0 = (Inl e, w1) \<longrightarrow>
      main env a w0 = Some (Inl e, w1) \<and> exit_status (main env a w0) = Some 1"
    by (simp add: main_def exit_status_def)
qed (auto simp add: renew_creds_def get_gmail_service_def renew_and_store_def load_creds_def Let_def
       split: sum.splits option.splits)

lemma one_page_fetched:
  "fetched (fake_service one_page) ''me'' DEFAULT_QUERY None s [first_page] (Some ''t1'') s"
proof -
  have ex: "list_exec (fake_service one_page) s ''me'' DEFAULT_QUERY None 500 = (Inr first_page, s)"
    by (simp add: fake_service_def one_page_def)
  have more: "truthy (nextPageToken first_page)" and tok: "nextPageToken first_page = Some ''t1''"
    by (simp_all add: first_page_def)
  from fetched.one_more [OF ex more fetched.no_page] tok show ?thesis by simp
qed

lemma one_page_fails:
  "list_exec (fake_service one_page) s ''me'' DEFAULT_QUERY (Some ''t1'') 500 = (Inl (HttpError (Some 400)), s)"
  by (simp add: fake_service_def one_page_def)

text \<open>
  Claim C7, amended. An exception of a \<open>messages.list\<close> call, the first one or one
  made after any number of pages were fetched, ends \<open>list_message_ids\<close> with that
  exception and no further call, and ends \<open>main\<close> and the process with status 1;
  so does any exception that leaves \<open>list_message_ids\<close> or \<open>get_gmail_service\<close>.
  In \<open>get_gmail_service\<close> the exceptions of refreshing, of reading the client
  secrets, of the local-server flow, of writing the token file and of building the
  client all leave the function. The exception of loading the cached token does
  not: it is caught, the credentials count as missing, and the function goes on
  with the flow.
\<close>

theorem errors_propagate:
  "(fetched service user_id query None (srv_state w) pages tok s1
      \<and> map (\<lambda>res. page_ids (get_messages res)) pages = map Inr idss
      \<and> (pages \<noteq> [] \<longrightarrow> \<not> cap_reached max_messages (concat idss))
      \<and> list_exec service s1 user_id query tok 500 = (Inl e, s') \<longrightarrow>
    list_message_ids service user_id query max_messages w
      = Some (Inl e, after w s' (map (\<lambda>t. ListCall user_id query t 500)
                                  (butlast (None # map nextPageToken pages))
                                @ [ListCall user_id query tok 500])))
   \<and> (get_gmail_service env (arg_credentials a) (arg_token a) w0 = (Inr service, w1)
      \<and> fetched service (arg_user a) (arg_query a) None (srv_state w1) pages tok s1
      \<and> map (\<lambda>res. page_ids (get_messages res)) pages = map Inr idss
      \<and> (pages \<noteq> [] \<longrightarrow> \<not> cap_reached (arg_max a) (concat idss))
      \<and> list_exec service s1 (arg_user a) (arg_query a) tok 500 = (Inl e, s') \<longrightarrow>
    map_option fst (main env a w0) = Some (Inl e) \<and> exit_status (main env a w0) = Some 1)
   \<and> (list_exec service (srv_state w) user_id query page_token 500 = (Inl e, s') \<longrightarrow>
         list_loop service user_id query max_messages ids page_token w
           = Some (Inl e, after w s' [ListCall user_id query page_token 500]))
      \<and> (get_gmail_service env (arg_credentials a) (arg_token a) w0 = (Inr service, w1)
           \<and> list_message_ids service (arg_user a) (arg_query a) (arg_max a)
                (py_print (''Searching with query:'' @ [CHR 0x0A] @ ''  '' @ arg_query a) w1) = Some (Inl e, w2) \<longrightarrow>
         main env a w0 = Some (Inl e, w2) \<and> exit_status (main env a w0) = Some 1)
      \<and> (get_gmail_service env (arg_credentials a) (arg_token a) w0 = (Inl e, w1) \<longrightarrow>
         main env a w0 = Some (Inl e, w1) \<and> exit_status (main env a w0) = Some 1)
      \<and> (expired c \<and> truthy (refresh_token c) \<and> refresh env c = Inl e \<longrightarrow>
         renew_creds env credentials_path (Some c) = Inl e)
      \<and> (\<not> (expired c \<and> truthy (refresh_token c)) \<and> from_client_secrets_file env credentials_path SCOPES = Inl e \<longrightarrow>
         renew_creds env credentials_path (Some c) = Inl e \<and> renew_creds env credentials_path None = Inl e)
      \<and> (\<not> (expired c \<and> truthy (refresh_token c)) \<and> from_client_secrets_file env credentials_path SCOPES = Inr flow
           \<and> run_local_server env flow 0 = Inl e \<longrightarrow>
         renew_creds env credentials_path (Some c) = Inl e \<and> renew_creds env credentials_path None = Inl e)
      \<and> ((load_creds env token_path = None \<or> (\<exists>c'. load_creds env token_path = Some c' \<and> \<not> valid c'))
           \<and> renew_creds env credentials_path (load_creds env token_path) = Inl e \<longrightarrow>
         get_gmail_service env credentials_path token_path w0 = (Inl e, w0))
      \<and> ((load_creds env token_path = None \<or> (\<exists>c'. load_creds env token_path = Some c' \<and> \<not> valid c'))
           \<and> renew_creds env credentials_path (load_creds env token_path) = Inr c
           \<and> write_file env token_path (to_json c) = Some e \<longrightarrow>
         get_gmail_service env credentials_path token_path w0 = (Inl e, w0))
      \<and> ((load_creds env token_path = None \<or> (\<exists>c'. load_creds env token_path = Some c' \<and> \<not> valid c'))
           \<and> renew_creds env credentials_path (load_creds env token_path) = Inr c
           \<and> write_file env token_path (to_json c) = None
           \<and> build env ''gmail'' ''v1'' c = Inl e \<longrightarrow>
         get_gmail_service env credentials_path token_path w0
           = (Inl e, emit (WriteFile token_path (to_json c)) w0))
      \<and> (load_creds env token_path = Some c \<and> valid c \<and> build env ''gmail'' ''v1'' c = Inl e \<longrightarrow>
         get_gmail_service env credentials_path token_path w0 = (Inl e, w0))
      \<and> (from_authorized_user_file env token_path SCOPES = Inl e \<longrightarrow>
         load_creds env token_path = None
         \<and> get_gmail_service env credentials_path token_path w0
             = (case renew_and_store env credentials_path token_path None w0 of
                  (Inl e', w') \<Rightarrow> (Inl e', w')
                | (Inr c', w') \<Rightarrow>
                    (case build env ''gmail'' ''v1'' c' of
                       Inl e' \<Rightarrow> (Inl e', w')
                     | Inr service \<Rightarrow> (Inr service, w'))))"
proof -
  have later: "fetched service user_id query None (srv_state w) pages tok s1
      \<and> map (\<lambda>res. page_ids (get_messages res)) pages = map Inr idss
      \<and> (pages \<noteq> [] \<longrightarrow> \<not> cap_reached max_messages (concat idss))
      \<and> list_exec service s1 user_id query tok 500 = (Inl e, s') \<longrightarrow>
    list_message_ids service user_id query max_messages w
      = Some (Inl e, after w s' (map (\<lambda>t. ListCall user_id query t 500)
                                  (butlast (None # map nextPageToken pages))
                                @ [ListCall user_id query tok 500]))"
    using list_message_ids_later_error [of service user_id query w pages tok s1 idss max_messages e s']
    by blast
  have process: "get_gmail_service env (arg_credentials a) (arg_token a) w0 = (Inr service, w1)
      \<and> fetched service (arg_user a) (arg_query a) None (srv_state w1) pages tok s1
      \<and> map (\<lambda>res. page_ids (get_messages res)) pages = map Inr idss
      \<and> (pages \<noteq> [] \<longrightarrow> \<not> cap_reached (arg_max a) (concat idss))
      \<and> list_exec service s1 (arg_user a) (arg_query a) tok 500 = (Inl e, s') \<longrightarrow>
    map_option fst (main env a w0) = Some (Inl e) \<and> exit_status (main env a w0) = Some 1"
  proof (intro impI, elim conjE)
    let ?w2 = "py_print (''Searching with query:'' @ [CHR 0x0A] @ ''  '' @ arg_query a) w1"
    assume auth: "get_gmail_service env (arg_credentials a) (arg_token a) w0 = (Inr service, w1)"
      and f: "fetched service (arg_user a) (arg_query a) None (srv_state w1) pages tok s1"
      and i: "map (\<lambda>res. page_ids (get_messages res)) pages = map Inr idss"
      and c: "pages \<noteq> [] \<longrightarrow> \<not> cap_reached (arg_max a) (concat idss)"
      and x: "list_exec service s1 (arg_user a) (arg_query a) tok 500 = (Inl e, s')"
    have "srv_state ?w2 = srv_state w1" by (simp add: py_print_def emit_def)
    with f have f': "fetched service (arg_user a) (arg_query a) None (srv_state ?w2) pages tok s1" by simp
    from list_message_ids_later_error [OF f' i c x] auth
    show "map_option fst (main env a w0) = Some (Inl e) \<and> exit_status (main env a w0) = Some 1"
      by (simp add: main_def exit_status_def)
  qed
  show ?thesis by (rule conjI [OF later conjI [OF process errors_propagate_steps]])
qed

text \<open>
  C7 (amended): a search whose second list call fails with a 400 after the first
  page was fetched, ending the process with status 1, and a missing client secrets
  file that does the same.
\<close>

theorem errors_propagate_witness:
  "fetched (fake_service one_page) ''me'' DEFAULT_QUERY None [] [first_page] (Some ''t1'') []
   \<and> list_exec (fake_service one_page) [] ''me'' DEFAULT_QUERY (Some ''t1'') 500 = (Inl (HttpError (Some 400)), [])
   \<and> list_message_ids (fake_service one_page) ''me'' DEFAULT_QUERY None (fresh [])
       = Some (Inl (HttpError (Some 400)),
               \<lparr>srv_state = [],
                trace = [ListCall ''me'' DEFAULT_QUERY None 500, ListCall ''me'' DEFAULT_QUERY (Some ''t1'') 500]\<rparr>)
   \<and> map_option fst (main broken_search_env default_args (fresh [])) = Some (Inl (HttpError (Some 400)))
   \<and> exit_status (main broken_search_env default_args (fresh [])) = Some 1
   \<and> from_client_secrets_file no_secrets_env ''credentials.json'' SCOPES = Inl (OtherException ''FileNotFoundError'')
   \<and> get_gmail_service no_secrets_env ''credentials.json'' ''token.json'' (fresh [])
       = (Inl (OtherException ''FileNotFoundError''), fresh [])
   \<and> exit_status (main no_secrets_env default_args (fresh [])) = Some 1"
proof -
  let ?start = "fresh ([] :: (exn + unit) list)"
  have f: "fetched (fake_service one_page) ''me'' DEFAULT_QUERY None (srv_state ?start) [first_page] (Some ''t1'') []"
    using one_page_fetched [of "[]"] by (simp add: fresh_def)
  have i: "map (\<lambda>res. page_ids (get_messages res)) [first_page] = map Inr [[''m1'', ''m2'']]"
    by (simp add: first_page_ids)
  have c: "[first_page] \<noteq> [] \<longrightarrow> \<not> cap_reached None (concat [[''m1'', ''m2'']])"
    by (simp add: cap_reached_def)
  note x = one_page_fails [of "[]"]
  from errors_propagate [THEN conjunct1, rule_format, OF conjI [OF f conjI [OF i conjI [OF c x]]]]
  have l: "list_message_ids (fake_service one_page) ''me'' DEFAULT_QUERY None ?start
       = Some (Inl (HttpError (Some 400)),
               \<lparr>srv_state = [],
                trace = [ListCall ''me'' DEFAULT_QUERY None 500, ListCall ''me'' DEFAULT_QUERY (Some ''t1'') 500]\<rparr>)"
    by (simp add: after_def fresh_def first_page_def)
  have auth: "get_gmail_service broken_search_env (arg_credentials default_args) (arg_token default_args) ?start
       = (Inr (fake_service one_page), ?start)"
    by (simp add: broken_search_env_def get_gmail_service_def load_creds_def granted_def)
  have f': "fetched (fake_service one_page) (arg_user default_args) (arg_query default_args) None
              (srv_state ?start) [first_page] (Some ''t1'') []"
    using f by (simp add: default_args_def)
  have c': "[first_page] \<noteq> [] \<longrightarrow> \<not> cap_reached (arg_max default_args) (concat [[''m1'', ''m2'']])"
    by (simp add: cap_reached_def default_args_def)
  have x': "list_exec (fake_service one_page) [] (arg_user default_args) (arg_query default_args) (Some ''t1'') 500
              = (Inl (HttpError (Some 400)), [])"
    using x by (simp add: default_args_def)
  note m = errors_propagate [THEN conjunct2, THEN conjunct1, rule_format,
      OF conjI [OF auth conjI [OF f' conjI [OF i conjI [OF c' x']]]]]
  have s: "from_client_secrets_file no_secrets_env ''credentials.json'' SCOPES = Inl (OtherException ''FileNotFoundError'')"
    by (simp add: no_secrets_env_def)
  have g: "get_gmail_service no_secrets_env ''credentials.json'' ''token.json'' ?start
       = (Inl (OtherException ''FileNotFoundError''), ?start)"
    by (simp add: no_secrets_env_def get_gmail_service_def load_creds_def renew_and_store_def renew_creds_def)
  then have g': "get_gmail_service no_secrets_env (arg_credentials default_args) (arg_token default_args) ?start
       = (Inl (OtherException ''FileNotFoundError''), ?start)"
    by (simp add: default_args_def)
  note n = errors_propagate [THEN conjunct2, THEN conjunct2, THEN conjunct2, THEN conjunct2, THEN conjunct1,
      rule_format, OF g', THEN conjunct2]
  show ?thesis
    by (intro conjI one_page_fetched x l m [THEN conjunct1] m [THEN conjunct2] s g n)
qed

text \<open>
  Claim C7 as stated fails for the token file: loading it raises, and
  \<open>get_gmail_service\<close> still returns a client, having run the flow and written
  the token.
\<close>

theorem token_load_counterexample:
  "from_authorized_user_file first_run_env ''token.json'' SCOPES = Inl (OtherException ''FileNotFoundError'')
   \<and> fst (get_gmail_service first_run_env ''credentials.json'' ''token.json'' (fresh []))
       = Inr (fake_service [])
   \<and> snd (get_gmail_service first_run_env ''credentials.json'' ''token.json'' (fresh []))
       = \<lparr>srv_state = [], trace = [WriteFile ''token.json'' ''{}'']\<rparr>"
  by (simp add: first_run_env_def get_gmail_service_def load_creds_def renew_and_store_def renew_creds_def
        granted_def emit_def fresh_def)

end
